theory Spec2Isabelle
  imports Complex_Main "HOL-Library.Multiset"
begin

section \<open>JavaScript strings\<close>

text \<open>
  A JavaScript string is modelled as a HOL \<open>string\<close>; each \<open>char\<close> stands for one
  code unit below 256.  Within that range the characters that \<open>String.prototype.trim\<close>
  removes and that the regular-expression class \<open>\s\<close> matches are TAB, LF, VT, FF, CR,
  SPACE and NBSP; the line terminators, which the regular-expression dot refuses, are
  LF and CR.
\<close>

definition code :: "char \<Rightarrow> nat" where
  "code c = of_char c"

definition isWhiteSpace :: "char \<Rightarrow> bool" where
  "isWhiteSpace c = (code c \<in> {9, 10, 11, 12, 13, 32, 160})"

definition isLineTerminator :: "char \<Rightarrow> bool" where
  "isLineTerminator c = (code c \<in> {10, 13})"

definition trim :: "string \<Rightarrow> string" where
  "trim s = rev (dropWhile isWhiteSpace (rev (dropWhile isWhiteSpace s)))"

text \<open>\<open>s.split(sep)\<close> for a one-character separator: the empty string splits into one
  empty piece.\<close>

fun split_str :: "char \<Rightarrow> string \<Rightarrow> string list" where
  "split_str sep [] = [[]]"
| "split_str sep (c # cs) =
     (if c = sep then [] # split_str sep cs
      else (case split_str sep cs of
              [] \<Rightarrow> [[c]]
            | p # ps \<Rightarrow> (c # p) # ps))"

text \<open>\<open>parts[i] || ''\<close>: a missing piece reads as \<open>undefined\<close>, which is replaced by
  the empty string.\<close>

definition part_or_empty :: "string list \<Rightarrow> nat \<Rightarrow> string" where
  "part_or_empty parts i = (if i < length parts then parts ! i else [])"

text \<open>\<open>String.prototype.toLowerCase\<close> on code units below 256: the ASCII capitals and
  the Latin-1 capitals (all of 192..222 except the multiplication sign 215).\<close>

definition toLowerCase_char :: "char \<Rightarrow> char" where
  "toLowerCase_char c =
     (if (65 \<le> code c \<and> code c \<le> 90) \<or> (192 \<le> code c \<and> code c \<le> 222 \<and> code c \<noteq> 215)
      then char_of (code c + 32) else c)"

definition toLowerCase :: "string \<Rightarrow> string" where
  "toLowerCase s = map toLowerCase_char s"

fun join :: "string \<Rightarrow> string list \<Rightarrow> string" where
  "join sep [] = []"
| "join sep [x] = x"
| "join sep (x # y # ys) = x @ sep @ join sep (y # ys)"

section \<open>parser.js\<close>

record commit =
  hash :: string
  type :: string
  scope :: "string option"
  description :: string
  body :: string
  breaking :: bool
  raw :: string

subsection \<open>\<open>COMMIT_PATTERN\<close>\<close>

text \<open>
  \<^verbatim>\<open>/^(?<type>[a-z]+)(?:\((?<scope>[^)]+)\))?(?<breaking>!)?\s*:\s*(?<description>.+)$/\<close>

  The pattern is anchored at both ends and has no flags.  Each greedy piece is followed
  by a character its own class excludes, so the backtracking matcher has one way to
  succeed, which the functions below follow piece by piece.  The single place where
  giving back helps is the white space before the description: when nothing but white
  space follows the colon, \<open>\s*\<close> returns its last character to \<open>.+\<close>.
\<close>

definition is_az :: "char \<Rightarrow> bool" where
  "is_az c = (97 \<le> code c \<and> code c \<le> 122)"

text \<open>\<open>(?:\((?<scope>[^)]+)\))?\<close>: the result is the captured scope (if the group took
  part) and the rest of the input; \<open>None\<close> when the input opens a parenthesis that the
  group cannot match, since nothing after the group accepts a \<open>(\<close>.\<close>

definition match_scope :: "string \<Rightarrow> (string option \<times> string) option" where
  "match_scope r =
     (case r of
        [] \<Rightarrow> Some (None, r)
      | c # t \<Rightarrow>
          if c = CHR ''(''
          then (let sc = takeWhile (\<lambda>x. x \<noteq> CHR '')'') t;
                    rest = dropWhile (\<lambda>x. x \<noteq> CHR '')'') t
                in if sc \<noteq> [] \<and> rest \<noteq> [] then Some (Some sc, tl rest) else None)
          else Some (None, r))"

text \<open>\<open>(?<breaking>!)?\<close>\<close>

definition match_bang :: "string \<Rightarrow> bool \<times> string" where
  "match_bang r =
     (case r of
        [] \<Rightarrow> (False, r)
      | c # t \<Rightarrow> if c = CHR ''!'' then (True, t) else (False, r))"

text \<open>\<open>\s*(?<description>.+)$\<close>\<close>

definition match_description :: "string \<Rightarrow> string option" where
  "match_description r =
     (let ws = takeWhile isWhiteSpace r;
          d = dropWhile isWhiteSpace r
      in if d \<noteq> []
         then (if list_ex isLineTerminator d then None else Some d)
         else if ws \<noteq> [] \<and> \<not> isLineTerminator (last ws) then Some [last ws]
         else None)"

definition match_COMMIT_PATTERN ::
  "string \<Rightarrow> (string \<times> string option \<times> bool \<times> string) option" where
  "match_COMMIT_PATTERN s =
     (let ty = takeWhile is_az s;
          r1 = dropWhile is_az s
      in if ty = [] then None
         else (case match_scope r1 of
                 None \<Rightarrow> None
               | Some (sc, r2) \<Rightarrow>
                   (let (br, r3) = match_bang r2;
                        r4 = dropWhile isWhiteSpace r3
                    in (case r4 of
                          [] \<Rightarrow> None
                        | c # r5 \<Rightarrow>
                            if c = CHR '':''
                            then (case match_description r5 of
                                    None \<Rightarrow> None
                                  | Some d \<Rightarrow> Some (ty, sc, br, d))
                            else None))))"

text \<open>
  The pattern read as a grammar, for comparison with the functions above: a subject
  matches when it is \<open>pattern_text\<close> of pieces that satisfy \<open>pattern_pieces\<close> (the type,
  the optional scope, the optional \<open>!\<close>, the white space around the colon and the
  description).
\<close>

definition pattern_pieces :: "string \<Rightarrow> string option \<Rightarrow> string \<Rightarrow> string \<Rightarrow> string \<Rightarrow> bool" where
  "pattern_pieces ty sc w1 w2 d =
     (ty \<noteq> [] \<and> list_all is_az ty \<and>
      (case sc of None \<Rightarrow> True | Some x \<Rightarrow> x \<noteq> [] \<and> list_all (\<lambda>c. c \<noteq> CHR '')'') x) \<and>
      list_all isWhiteSpace w1 \<and> list_all isWhiteSpace w2 \<and>
      d \<noteq> [] \<and> list_all (\<lambda>c. \<not> isLineTerminator c) d)"

definition pattern_text :: "string \<Rightarrow> string option \<Rightarrow> bool \<Rightarrow> string \<Rightarrow> string \<Rightarrow> string \<Rightarrow> string" where
  "pattern_text ty sc br w1 w2 d =
     ty @ (case sc of None \<Rightarrow> [] | Some x \<Rightarrow> ''('' @ x @ '')'') @ (if br then ''!'' else [])
        @ w1 @ '':'' @ w2 @ d"

subsection \<open>\<open>BREAKING_BODY_PATTERN\<close>\<close>

text \<open>
  \<^verbatim>\<open>/BREAKING CHANGE[:\s]/i\<close>, unanchored.  Under the \<open>i\<close> flag (without \<open>u\<close>) a
  pattern letter \<open>A\<close>..\<open>Z\<close> matches itself and its ASCII lower-case form and nothing
  else: a character above 127 is never folded onto an ASCII one.  The space of the
  pattern matches the space only.
\<close>

definition ci_eq :: "char \<Rightarrow> char \<Rightarrow> bool" where
  "ci_eq p c = (c = p \<or> (65 \<le> code p \<and> code p \<le> 90 \<and> code c = code p + 32))"

fun ci_prefix :: "string \<Rightarrow> string \<Rightarrow> string option" where
  "ci_prefix [] s = Some s"
| "ci_prefix (p # ps) [] = None"
| "ci_prefix (p # ps) (c # cs) = (if ci_eq p c then ci_prefix ps cs else None)"

definition breaking_body_here :: "string \<Rightarrow> bool" where
  "breaking_body_here s =
     (case ci_prefix ''BREAKING CHANGE'' s of
        None \<Rightarrow> False
      | Some [] \<Rightarrow> False
      | Some (c # _) \<Rightarrow> c = CHR '':'' \<or> isWhiteSpace c)"

fun test_BREAKING_BODY_PATTERN :: "string \<Rightarrow> bool" where
  "test_BREAKING_BODY_PATTERN [] = False"
| "test_BREAKING_BODY_PATTERN (c # cs) =
     (breaking_body_here (c # cs) \<or> test_BREAKING_BODY_PATTERN cs)"

subsection \<open>\<open>parseCommit\<close>, \<open>parseCommits\<close>\<close>

definition raw_hash :: "string \<Rightarrow> string" where
  "raw_hash r = trim (part_or_empty (split_str (CHR 0x00) r) 0)"

definition raw_subject :: "string \<Rightarrow> string" where
  "raw_subject r = trim (part_or_empty (split_str (CHR 0x00) r) 1)"

definition raw_body :: "string \<Rightarrow> string" where
  "raw_body r = trim (part_or_empty (split_str (CHR 0x00) r) 2)"

text \<open>\<open>scope || null\<close>: an undefined or empty capture becomes \<open>null\<close>.\<close>

definition or_null :: "string option \<Rightarrow> string option" where
  "or_null sc = (case sc of None \<Rightarrow> None | Some x \<Rightarrow> if x = [] then None else Some x)"

definition parseCommit :: "string \<Rightarrow> commit option" where
  "parseCommit r =
     (let h = raw_hash r;
          subject = raw_subject r;
          b = raw_body r
      in if subject = [] then None
         else (case match_COMMIT_PATTERN subject of
                 None \<Rightarrow>
                   Some \<lparr>hash = h, type = ''other'', scope = None, description = subject,
                         body = b, breaking = False, raw = subject\<rparr>
               | Some (ty, sc, br, d) \<Rightarrow>
                   Some \<lparr>hash = h, type = toLowerCase ty, scope = or_null sc,
                         description = trim d, body = trim b,
                         breaking = (br \<or> test_BREAKING_BODY_PATTERN b), raw = subject\<rparr>))"

text \<open>\<open>rawCommits.map(parseCommit).filter(Boolean)\<close>: an object is truthy, \<open>null\<close> is not.\<close>

definition parseCommits :: "string list \<Rightarrow> commit list" where
  "parseCommits rawCommits = map the (filter (\<lambda>r. r \<noteq> None) (map parseCommit rawCommits))"

text \<open>
  \<open>COMMIT_TYPES\<close> is an object literal.  Reading \<open>COMMIT_TYPES[k]\<close> finds an own
  property, or else a property inherited from \<open>Object.prototype\<close> (a function, or for
  \<open>__proto__\<close> the prototype object itself), or else \<open>undefined\<close>.
\<close>

definition COMMIT_TYPES :: "(string \<times> (string \<times> nat)) list" where
  "COMMIT_TYPES =
     [(''feat'', (''Features'', 0)),
      (''fix'', (''Bug Fixes'', 1)),
      (''perf'', (''Performance'', 2)),
      (''refactor'', (''Refactoring'', 3)),
      (''docs'', (''Documentation'', 4)),
      (''test'', (''Tests'', 5)),
      (''ci'', (''CI / CD'', 6)),
      (''chore'', (''Chores'', 7)),
      (''build'', (''Build System'', 8)),
      (''style'', (''Style'', 9)),
      (''revert'', (''Reverts'', 10)),
      (''other'', (''Other Changes'', 11))]"

definition Object_prototype_keys :: "string list" where
  "Object_prototype_keys =
     [''constructor'', ''__defineGetter__'', ''__defineSetter__'', ''hasOwnProperty'',
      ''__lookupGetter__'', ''__lookupSetter__'', ''isPrototypeOf'',
      ''propertyIsEnumerable'', ''toString'', ''valueOf'', ''__proto__'',
      ''toLocaleString'']"

datatype property = Own string nat | Inherited | Undefined

definition COMMIT_TYPES_get :: "string \<Rightarrow> property" where
  "COMMIT_TYPES_get k =
     (case map_of COMMIT_TYPES k of
        Some (l, ord) \<Rightarrow> Own l ord
      | None \<Rightarrow> if k \<in> set Object_prototype_keys then Inherited else Undefined)"

text \<open>Truthiness of the value read: objects and functions are truthy, \<open>undefined\<close> is
  not.\<close>

definition truthy :: "property \<Rightarrow> bool" where
  "truthy p = (p \<noteq> Undefined)"

text \<open>\<open>COMMIT_TYPES[k]?.order ?? 99\<close> and \<open>COMMIT_TYPES[k]?.label ?? 'Other'\<close>: an
  inherited value has neither field.\<close>

definition order_or_99 :: "string \<Rightarrow> nat" where
  "order_or_99 k = (case COMMIT_TYPES_get k of Own l ord \<Rightarrow> ord | _ \<Rightarrow> 99)"

definition label_or_Other :: "string \<Rightarrow> string" where
  "label_or_Other k = (case COMMIT_TYPES_get k of Own l ord \<Rightarrow> l | _ \<Rightarrow> ''Other'')"

section \<open>changelog.js\<close>

subsection \<open>\<open>groupByType\<close>\<close>

text \<open>The \<open>Map\<close> keeps its keys in insertion order: an association list.  A commit is
  pushed onto the array of its key, which is created at the end of the map when the
  key is new.\<close>

fun groups_push :: "string \<Rightarrow> commit \<Rightarrow> (string \<times> commit list) list \<Rightarrow> (string \<times> commit list) list" where
  "groups_push k c [] = [(k, [c])]"
| "groups_push k c ((k', cs) # g) =
     (if k' = k then (k', cs @ [c]) # g else (k', cs) # groups_push k c g)"

definition group_key :: "commit \<Rightarrow> string" where
  "group_key c = (if truthy (COMMIT_TYPES_get (type c)) then type c else ''other'')"

definition collect_groups :: "commit list \<Rightarrow> (string \<times> commit list) list" where
  "collect_groups commits = foldl (\<lambda>g c. groups_push (group_key c) c g) [] commits"

text \<open>\<open>Array.prototype.sort\<close> is stable; so is \<open>sort_key\<close>, and a stable sort by a key
  has one result.\<close>

definition groupByType :: "commit list \<Rightarrow> (string \<times> commit list) list" where
  "groupByType commits = sort_key (\<lambda>e. order_or_99 (fst e)) (collect_groups commits)"

subsection \<open>Breaking changes and entries\<close>

definition hasBreakingChanges :: "commit list \<Rightarrow> bool" where
  "hasBreakingChanges commits = list_ex breaking commits"

text \<open>\<open>c.scope ? `**${c.scope}**: ` : ''\<close>: \<open>null\<close> and the empty string are falsy.\<close>

definition scope_prefix :: "commit \<Rightarrow> string" where
  "scope_prefix c =
     (case scope c of
        None \<Rightarrow> []
      | Some sc \<Rightarrow> if sc = [] then [] else ''**'' @ sc @ ''**: '')"

definition collectBreakingChanges :: "commit list \<Rightarrow> string list" where
  "collectBreakingChanges commits =
     map (\<lambda>c. scope_prefix c @ description c) (filter breaking commits)"

definition formatEntry :: "commit \<Rightarrow> string" where
  "formatEntry c =
     ''- '' @ scope_prefix c @ description c
       @ (if hash c = [] then [] else '' (['' @ take 7 (hash c) @ ''])'')"

subsection \<open>The date of the header\<close>

text \<open>
  \<open>new Date().toISOString().slice(0, 10)\<close>.  The clock is an input: \<open>now\<close> is the time
  value of \<open>new Date()\<close>, in milliseconds since the epoch, UTC.  The functions follow
  the definitions of the language standard (\<open>Day\<close>, \<open>DayFromYear\<close>, \<open>YearFromTime\<close>,
  \<open>MonthFromTime\<close>, \<open>DateFromTime\<close>); \<open>YearFromDay\<close> finds the year, which the
  standard specifies as the largest \<open>y\<close> with \<open>DayFromYear y \<le> d\<close>, from an estimate
  that is off by at most one.
\<close>

definition digit_char :: "nat \<Rightarrow> char" where
  "digit_char d = ''0123456789'' ! d"

fun show_nat :: "nat \<Rightarrow> string" where
  "show_nat n = (if n < 10 then [digit_char n] else show_nat (n div 10) @ [digit_char (n mod 10)])"

declare show_nat.simps [simp del]

definition pad :: "nat \<Rightarrow> nat \<Rightarrow> string" where
  "pad w n = replicate (w - length (show_nat n)) (CHR ''0'') @ show_nat n"

definition msPerDay :: int where
  "msPerDay = 86400000"

definition Day :: "int \<Rightarrow> int" where
  "Day t = t div msPerDay"

definition DayFromYear :: "int \<Rightarrow> int" where
  "DayFromYear y = 365 * (y - 1970) + (y - 1969) div 4 - (y - 1901) div 100 + (y - 1601) div 400"

definition YearFromDay :: "int \<Rightarrow> int" where
  "YearFromDay d =
     (let y = 1970 + (400 * d) div 146097
      in if DayFromYear (y + 1) \<le> d then y + 1
         else if DayFromYear y \<le> d then y
         else y - 1)"

definition InLeapYear :: "int \<Rightarrow> int" where
  "InLeapYear y = (if y mod 4 = 0 \<and> (y mod 100 \<noteq> 0 \<or> y mod 400 = 0) then 1 else 0)"

text \<open>Month (0 for January) and day of the month, from the day within the year.\<close>

definition MonthDateFromDay :: "int \<Rightarrow> int \<times> int" where
  "MonthDateFromDay d =
     (let y = YearFromDay d;
          dwy = d - DayFromYear y;
          leap = InLeapYear y
      in if dwy < 31 then (0, dwy + 1)
         else if dwy < 59 + leap then (1, dwy - 30)
         else if dwy < 90 + leap then (2, dwy - 58 - leap)
         else if dwy < 120 + leap then (3, dwy - 89 - leap)
         else if dwy < 151 + leap then (4, dwy - 119 - leap)
         else if dwy < 181 + leap then (5, dwy - 150 - leap)
         else if dwy < 212 + leap then (6, dwy - 180 - leap)
         else if dwy < 243 + leap then (7, dwy - 211 - leap)
         else if dwy < 273 + leap then (8, dwy - 242 - leap)
         else if dwy < 304 + leap then (9, dwy - 272 - leap)
         else if dwy < 334 + leap then (10, dwy - 303 - leap)
         else (11, dwy - 333 - leap))"

text \<open>The year is written with four digits from 0 to 9999, and otherwise with a sign
  and six digits.\<close>

definition iso_year :: "int \<Rightarrow> string" where
  "iso_year y =
     (if 0 \<le> y \<and> y \<le> 9999 then pad 4 (nat y)
      else (if y < 0 then ''-'' else ''+'') @ pad 6 (nat \<bar>y\<bar>))"

definition iso_date :: "int \<Rightarrow> string" where
  "iso_date d =
     (let (m, dt) = MonthDateFromDay d
      in iso_year (YearFromDay d) @ ''-'' @ pad 2 (nat (m + 1)) @ ''-'' @ pad 2 (nat dt))"

definition iso_time :: "int \<Rightarrow> string" where
  "iso_time t =
     pad 2 (nat ((t div 3600000) mod 24)) @ '':'' @ pad 2 (nat ((t div 60000) mod 60))
       @ '':'' @ pad 2 (nat ((t div 1000) mod 60)) @ ''.'' @ pad 3 (nat (t mod 1000)) @ ''Z''"

definition toISOString :: "int \<Rightarrow> string" where
  "toISOString t = iso_date (Day t) @ ''T'' @ iso_time t"

subsection \<open>\<open>generateChangelog\<close>\<close>

definition breaking_section :: "string list \<Rightarrow> string list" where
  "breaking_section bs =
     (if bs \<noteq> [] then [''### BREAKING CHANGES'', []] @ map (\<lambda>b. ''- '' @ b) bs @ [[]] else [])"

definition type_section :: "string \<times> commit list \<Rightarrow> string list" where
  "type_section e = [''### '' @ label_or_Other (fst e), []] @ map formatEntry (snd e) @ [[]]"

text \<open>\<open>if (lastTag)\<close>: \<open>null\<close> and the empty string are falsy.\<close>

definition link_line :: "string \<Rightarrow> string option \<Rightarrow> string" where
  "link_line version lastTag =
     (case (case lastTag of None \<Rightarrow> None | Some t \<Rightarrow> if t = [] then None else Some t) of
        Some t \<Rightarrow>
          ''['' @ version @ '']: https://github.com/NickCirv/release-pilot/compare/'' @ t
            @ ''...v'' @ version
      | None \<Rightarrow>
          ''['' @ version @ '']: https://github.com/NickCirv/release-pilot/releases/tag/v''
            @ version)"

definition changelog_lines :: "int \<Rightarrow> string \<Rightarrow> commit list \<Rightarrow> string option \<Rightarrow> string list" where
  "changelog_lines now version commits lastTag =
     (let date = take 10 (toISOString now);
          groups = groupByType commits;
          bs = collectBreakingChanges commits
      in [''## ['' @ version @ ''] - '' @ date, []]
           @ breaking_section bs
           @ concat (map type_section groups)
           @ [link_line version lastTag])"

definition generateChangelog :: "int \<Rightarrow> string \<Rightarrow> commit list \<Rightarrow> string option \<Rightarrow> string" where
  "generateChangelog now version commits lastTag =
     join [CHR 0x0A] (changelog_lines now version commits lastTag)"

section \<open>JavaScript numbers\<close>

text \<open>
  A Number is an IEEE 754 double.  \<open>Fin q\<close> is the finite double whose exact value is
  the rational \<open>q\<close>; the two zeros are one value here, since the program only adds 1 to
  a Number and prints it, and both zeros print as \<open>0\<close> and give 1.
\<close>

datatype number = NaN | PosInf | NegInf | Fin rat

definition pow :: "nat \<Rightarrow> int \<Rightarrow> rat" where
  "pow b e = (if 0 \<le> e then of_nat b ^ nat e else 1 / of_nat b ^ nat (- e))"

text \<open>The number of digits of \<open>n\<close> in base \<open>b\<close> (none for 0).\<close>

function ndigits :: "nat \<Rightarrow> nat \<Rightarrow> nat" where
  "ndigits b n = (if n = 0 \<or> b < 2 then 0 else Suc (ndigits b (n div b)))"
  by pat_completeness auto
termination
  by (relation "measure snd") auto

declare ndigits.simps [simp del]

text \<open>For \<open>0 < a\<close> and \<open>2 \<le> b\<close>: the exponent \<open>e\<close> with \<open>b^e \<le> a < b^(e+1)\<close>.\<close>

definition floor_log :: "nat \<Rightarrow> rat \<Rightarrow> int" where
  "floor_log b a =
     (if 1 \<le> a then int (ndigits b (nat \<lfloor>a\<rfloor>)) - 1
      else - int (ndigits b (nat \<lceil>1 / a\<rceil> - 1)))"

definition round_half_even :: "rat \<Rightarrow> int" where
  "round_half_even x =
     (let f = \<lfloor>x\<rfloor>; r = x - of_int f
      in if r < 1 / 2 then f
         else if 1 / 2 < r then f + 1
         else if even f then f else f + 1)"

text \<open>Rounding a positive real to the nearest double, ties to the even significand:
  53 significant bits, least exponent \<open>-1074\<close>, overflow to infinity from \<open>2^1024\<close>.\<close>

definition round_pos :: "rat \<Rightarrow> number" where
  "round_pos a =
     (let q = max (floor_log 2 a - 52) (- 1074);
          v = of_int (round_half_even (a / pow 2 q)) * pow 2 q
      in if pow 2 1024 \<le> v then PosInf else Fin v)"

definition negate :: "number \<Rightarrow> number" where
  "negate x = (case x of NaN \<Rightarrow> NaN | PosInf \<Rightarrow> NegInf | NegInf \<Rightarrow> PosInf | Fin a \<Rightarrow> Fin (- a))"

definition round_double :: "rat \<Rightarrow> number" where
  "round_double a =
     (if a = 0 then Fin 0 else if 0 < a then round_pos a else negate (round_pos (- a)))"

definition isNaN :: "number \<Rightarrow> bool" where
  "isNaN x = (x = NaN)"

text \<open>The \<open>+\<close> of two Numbers.\<close>

definition number_add :: "number \<Rightarrow> number \<Rightarrow> number" where
  "number_add x y =
     (case (x, y) of
        (NaN, _) \<Rightarrow> NaN
      | (_, NaN) \<Rightarrow> NaN
      | (PosInf, NegInf) \<Rightarrow> NaN
      | (NegInf, PosInf) \<Rightarrow> NaN
      | (PosInf, _) \<Rightarrow> PosInf
      | (_, PosInf) \<Rightarrow> PosInf
      | (NegInf, _) \<Rightarrow> NegInf
      | (_, NegInf) \<Rightarrow> NegInf
      | (Fin a, Fin b) \<Rightarrow> round_double (a + b))"

subsection \<open>\<open>Number(string)\<close>\<close>

text \<open>
  The conversion of a string to a Number: white space is trimmed; the empty string is
  0; the rest must be a decimal literal (optional sign, \<open>Infinity\<close> or digits with an
  optional fraction and exponent) or an unsigned binary, octal or hexadecimal integer
  literal; anything else is \<open>NaN\<close>.
\<close>

definition isDigit :: "char \<Rightarrow> bool" where
  "isDigit c = (48 \<le> code c \<and> code c \<le> 57)"

definition isHexDigit :: "char \<Rightarrow> bool" where
  "isHexDigit c = (isDigit c \<or> (97 \<le> code c \<and> code c \<le> 102) \<or> (65 \<le> code c \<and> code c \<le> 70))"

definition isOctalDigit :: "char \<Rightarrow> bool" where
  "isOctalDigit c = (48 \<le> code c \<and> code c \<le> 55)"

definition isBinaryDigit :: "char \<Rightarrow> bool" where
  "isBinaryDigit c = (48 \<le> code c \<and> code c \<le> 49)"

definition digit_of :: "char \<Rightarrow> int" where
  "digit_of c =
     (if isDigit c then int (code c) - 48
      else if 97 \<le> code c then int (code c) - 87
      else int (code c) - 55)"

definition digits_value :: "int \<Rightarrow> string \<Rightarrow> int" where
  "digits_value b ds = foldl (\<lambda>a c. a * b + digit_of c) 0 ds"

definition NonDecimalIntegerLiteral :: "string \<Rightarrow> int option" where
  "NonDecimalIntegerLiteral s =
     (case s of
        z # x # ds \<Rightarrow>
          if z \<noteq> CHR ''0'' \<or> ds = [] then None
          else if (x = CHR ''x'' \<or> x = CHR ''X'') \<and> list_all isHexDigit ds
            then Some (digits_value 16 ds)
          else if (x = CHR ''o'' \<or> x = CHR ''O'') \<and> list_all isOctalDigit ds
            then Some (digits_value 8 ds)
          else if (x = CHR ''b'' \<or> x = CHR ''B'') \<and> list_all isBinaryDigit ds
            then Some (digits_value 2 ds)
          else None
      | _ \<Rightarrow> None)"

definition DecimalDigits :: "string \<Rightarrow> int option" where
  "DecimalDigits ds = (if ds \<noteq> [] \<and> list_all isDigit ds then Some (digits_value 10 ds) else None)"

definition SignedInteger :: "string \<Rightarrow> int option" where
  "SignedInteger s =
     (case s of
        [] \<Rightarrow> None
      | c # t \<Rightarrow>
          if c = CHR ''+'' then DecimalDigits t
          else if c = CHR ''-'' then map_option uminus (DecimalDigits t)
          else DecimalDigits s)"

definition ExponentPart_opt :: "string \<Rightarrow> int option" where
  "ExponentPart_opt s =
     (case s of
        [] \<Rightarrow> Some 0
      | c # t \<Rightarrow> if c = CHR ''e'' \<or> c = CHR ''E'' then SignedInteger t else None)"

text \<open>The mathematical value of an unsigned decimal literal other than \<open>Infinity\<close>.\<close>

definition StrUnsignedDecimalLiteral :: "string \<Rightarrow> rat option" where
  "StrUnsignedDecimalLiteral s =
     (let ip = takeWhile isDigit s;
          r1 = dropWhile isDigit s;
          fp = (case r1 of [] \<Rightarrow> [] | c # t \<Rightarrow> if c = CHR ''.'' then takeWhile isDigit t else []);
          r2 = (case r1 of [] \<Rightarrow> [] | c # t \<Rightarrow> if c = CHR ''.'' then dropWhile isDigit t else r1)
      in if ip = [] \<and> fp = [] then None
         else (case ExponentPart_opt r2 of
                 None \<Rightarrow> None
               | Some e \<Rightarrow>
                   Some ((of_int (digits_value 10 ip)
                            + of_int (digits_value 10 fp) / 10 ^ length fp) * pow 10 e)))"

definition StrDecimalLiteral :: "string \<Rightarrow> number option" where
  "StrDecimalLiteral s =
     (let neg = (s \<noteq> [] \<and> hd s = CHR ''-'');
          u = (if s \<noteq> [] \<and> (hd s = CHR ''+'' \<or> hd s = CHR ''-'') then tl s else s);
          r = (if u = ''Infinity'' then Some PosInf
               else map_option round_double (StrUnsignedDecimalLiteral u))
      in if neg then map_option negate r else r)"

definition Number :: "string \<Rightarrow> number" where
  "Number str =
     (let s = trim str
      in if s = [] then Fin 0
         else (case StrDecimalLiteral s of
                 Some x \<Rightarrow> x
               | None \<Rightarrow>
                   (case NonDecimalIntegerLiteral s of
                      Some n \<Rightarrow> round_double (of_int n)
                    | None \<Rightarrow> NaN)))"

subsection \<open>Number to string\<close>

text \<open>
  For a positive finite \<open>x\<close> the standard takes integers \<open>n\<close>, \<open>k\<close>, \<open>s\<close> with
  \<open>k \<ge> 1\<close>, \<open>10^(k-1) \<le> s < 10^k\<close>, \<open>s * 10^(n-k)\<close> rounding to \<open>x\<close>, and \<open>k\<close> as small as
  possible; among several \<open>s\<close>, the one closest to \<open>x\<close>.  For each \<open>k\<close> the only two
  candidates are the \<open>k\<close>-digit decimals just below and just above \<open>x\<close>.
\<close>

definition candidate :: "rat \<Rightarrow> int \<Rightarrow> nat \<Rightarrow> (int \<times> nat) option" where
  "candidate a n0 k =
     (let scale = pow 10 (n0 - int k);
          lo = \<lfloor>a / scale\<rfloor>;
          hi = lo + 1;
          ok_lo = (round_double (of_int lo * scale) = Fin a);
          ok_hi = (round_double (of_int hi * scale) = Fin a);
          dl = a - of_int lo * scale;
          dh = of_int hi * scale - a;
          pick = (if ok_lo \<and> ok_hi
                  then (if dl < dh then Some lo
                        else if dh < dl then Some hi
                        else Some (if even lo then lo else hi))
                  else if ok_lo then Some lo
                  else if ok_hi then Some hi
                  else None)
      in (case pick of
            None \<Rightarrow> None
          | Some c \<Rightarrow> if c = 10 ^ k then Some (n0 + 1, 10 ^ (k - 1)) else Some (n0, nat c)))"

text \<open>The search for the least \<open>k\<close>, for at most \<open>fuel\<close> values of \<open>k\<close>; seventeen
  digits identify every double, so the search from \<open>shortest_digits\<close> does not run
  out.\<close>

fun shortest :: "rat \<Rightarrow> int \<Rightarrow> nat \<Rightarrow> nat \<Rightarrow> int \<times> nat \<times> nat" where
  "shortest a n0 k fuel =
     (if fuel = 0 then (n0, k, nat \<lfloor>a / pow 10 (n0 - int k)\<rfloor>)
      else (case candidate a n0 k of
              Some (n, s) \<Rightarrow> (n, k, s)
            | None \<Rightarrow> shortest a n0 (k + 1) (fuel - 1)))"

declare shortest.simps [simp del]

definition shortest_digits :: "rat \<Rightarrow> int \<times> nat \<times> nat" where
  "shortest_digits a = shortest a (floor_log 10 a + 1) 1 17"

definition ToString_pos :: "rat \<Rightarrow> string" where
  "ToString_pos a =
     (let (n, k, s) = shortest_digits a;
          ds = show_nat s
      in if int k \<le> n \<and> n \<le> 21 then ds @ replicate (nat (n - int k)) (CHR ''0'')
         else if 0 < n \<and> n \<le> 21 then take (nat n) ds @ ''.'' @ drop (nat n) ds
         else if - 6 < n \<and> n \<le> 0 then ''0.'' @ replicate (nat (- n)) (CHR ''0'') @ ds
         else (let e = n - 1;
                   es = (if 0 \<le> e then ''+'' else ''-'') @ show_nat (nat \<bar>e\<bar>)
               in if k = 1 then ds @ ''e'' @ es
                  else take 1 ds @ ''.'' @ drop 1 ds @ ''e'' @ es))"

definition ToString :: "number \<Rightarrow> string" where
  "ToString x =
     (case x of
        NaN \<Rightarrow> ''NaN''
      | PosInf \<Rightarrow> ''Infinity''
      | NegInf \<Rightarrow> ''-Infinity''
      | Fin a \<Rightarrow>
          if a = 0 then ''0''
          else if a < 0 then ''-'' @ ToString_pos (- a)
          else ToString_pos a)"

section \<open>bumper.js\<close>

datatype error = Error string

definition determineBumpType :: "commit list \<Rightarrow> string" where
  "determineBumpType commits =
     (if hasBreakingChanges commits then ''major''
      else if ''feat'' \<in> set (map type commits) then ''minor''
      else ''patch'')"

text \<open>\<open>current.replace(/^v/, '')\<close>\<close>

definition strip_v :: "string \<Rightarrow> string" where
  "strip_v current =
     (case current of
        [] \<Rightarrow> []
      | c # cs \<Rightarrow> if c = CHR ''v'' then cs else current)"

text \<open>The \<open>switch\<close> has no default case: any other bump type leaves the three numbers
  as they are.\<close>

definition apply_bump :: "string \<Rightarrow> number \<times> number \<times> number \<Rightarrow> number \<times> number \<times> number" where
  "apply_bump bumpType v =
     (case v of (major, minor, patch) \<Rightarrow>
        if bumpType = ''major'' then (number_add major (Fin 1), Fin 0, Fin 0)
        else if bumpType = ''minor'' then (major, number_add minor (Fin 1), Fin 0)
        else if bumpType = ''patch'' then (major, minor, number_add patch (Fin 1))
        else (major, minor, patch))"

text \<open>A non-negative integer in decimal notation: one or more digits.  Its value is
  \<open>digits_value 10\<close>.\<close>

definition is_numeral :: "string \<Rightarrow> bool" where
  "is_numeral ds = (ds \<noteq> [] \<and> list_all isDigit ds)"

definition calcNextVersion :: "string \<Rightarrow> string \<Rightarrow> error + string" where
  "calcNextVersion current bumpType =
     (let clean = strip_v current;
          parts = map Number (split_str (CHR ''.'') clean)
      in if length parts \<noteq> 3 \<or> list_ex isNaN parts
         then Inl (Error (''Invalid semver: '' @ [CHR 0x22] @ current @ [CHR 0x22]))
         else (case apply_bump bumpType (parts ! 0, parts ! 1, parts ! 2) of
                 (major, minor, patch) \<Rightarrow>
                   Inr (ToString major @ ''.'' @ ToString minor @ ''.'' @ ToString patch)))"

text \<open>
  What \<open>bump\<close> reads and writes outside the program: the raw commit strings that
  \<open>fetchCommitsSince(getLastTag())\<close> returns, and the \<open>version\<close> field of
  \<open>package.json\<close> (\<open>None\<close> when the file cannot be read or parsed, or has no such
  field).
\<close>

record world =
  raw_commits :: "string list"
  package_version :: "string option"

definition readCurrentVersion :: "world \<Rightarrow> error + string" where
  "readCurrentVersion w =
     (case package_version w of
        None \<Rightarrow> Inl (Error ''Cannot read package.json'')
      | Some v \<Rightarrow> if v = [] then Inl (Error ''Cannot read package.json'') else Inr v)"

definition writeVersion :: "string \<Rightarrow> world \<Rightarrow> world" where
  "writeVersion newVersion w = w\<lparr>package_version := Some newVersion\<rparr>"

text \<open>The result object \<open>{ current, next, bumpType, commits }\<close>; \<open>next\<close> is a keyword
  of the proof language, hence \<open>next_version\<close>.\<close>

record bump_result =
  current :: string
  next_version :: string
  bumpType :: string
  commits :: "commit list"

text \<open>\<open>force || determineBumpType(commits)\<close>: \<open>null\<close> and the empty string are falsy, and
  the right operand is evaluated only then.\<close>

definition bump :: "world \<Rightarrow> bool \<Rightarrow> string option \<Rightarrow> error + (bump_result \<times> world)" where
  "bump w dryRun force =
     (let cs = parseCommits (raw_commits w)
      in (case readCurrentVersion w of
            Inl e \<Rightarrow> Inl e
          | Inr cur \<Rightarrow>
              (let bt = (case force of
                           None \<Rightarrow> determineBumpType cs
                         | Some f \<Rightarrow> if f = [] then determineBumpType cs else f)
               in (case calcNextVersion cur bt of
                     Inl e \<Rightarrow> Inl e
                   | Inr nxt \<Rightarrow>
                       Inr (\<lparr>current = cur, next_version = nxt, bumpType = bt, commits = cs\<rparr>,
                            if dryRun then w else writeVersion nxt w)))))"

section \<open>tagger.js\<close>

text \<open>
  The repository as the tagger sees it: the annotated tags (name and message) and the
  \<open>git\<close> commands run so far.
\<close>

record repo =
  tags :: "(string \<times> string) list"
  calls :: "string list list"

text \<open>
  \<open>git\<close> itself is not part of the program, and the tagger only looks at whether a
  command succeeds.  Its two answers are parameters: \<open>rev_parse_verify g r rev\<close> says
  whether \<open>git rev-parse --verify rev\<close> succeeds in the repository \<open>r\<close>, and
  \<open>tag_a g r tag message\<close> says whether \<open>git tag -a tag -m message\<close> succeeds there.
  A \<open>git tag -a\<close> that succeeds has created the tag; one that fails has created
  nothing.
\<close>

record git =
  rev_parse_verify :: "repo \<Rightarrow> string \<Rightarrow> bool"
  tag_a :: "repo \<Rightarrow> string \<Rightarrow> string \<Rightarrow> bool"

text \<open>\<open>tagExists\<close> returns \<open>true\<close> when the command succeeds and \<open>false\<close> when it
  throws.\<close>

definition tagExists :: "git \<Rightarrow> repo \<Rightarrow> string \<Rightarrow> bool \<times> repo" where
  "tagExists g r tag =
     (rev_parse_verify g r (''refs/tags/'' @ tag),
      r\<lparr>calls := calls r @ [[''git'', ''rev-parse'', ''--verify'', ''refs/tags/'' @ tag]]\<rparr>)"

text \<open>\<open>execFileSync('git', ['tag', '-a', tag, '-m', message])\<close>: a failing command is an
  exception.\<close>

definition git_tag_a :: "git \<Rightarrow> repo \<Rightarrow> string \<Rightarrow> string \<Rightarrow> (error + unit) \<times> repo" where
  "git_tag_a g r tag message =
     (let r1 = r\<lparr>calls := calls r @ [[''git'', ''tag'', ''-a'', tag, ''-m'', message]]\<rparr>
      in if tag_a g r tag message
         then (Inr (), r1\<lparr>tags := tags r1 @ [(tag, message)]\<rparr>)
         else (Inl (Error ''Command failed: git tag -a''), r1))"

text \<open>\<open>version.startsWith('v') ? version : `v${version}`\<close>\<close>

definition tag_name :: "string \<Rightarrow> string" where
  "tag_name version =
     (if version \<noteq> [] \<and> hd version = CHR ''v'' then version else ''v'' @ version)"

definition createTag ::
  "git \<Rightarrow> repo \<Rightarrow> string \<Rightarrow> string \<Rightarrow> bool \<Rightarrow> (error + string) \<times> repo" where
  "createTag g r version message dryRun =
     (let tag = tag_name version
      in (case tagExists g r tag of
            (ex, r1) \<Rightarrow>
              if ex
              then (Inl (Error (''Tag '' @ [CHR 0x22] @ tag @ [CHR 0x22]
                                  @ '' already exists. Delete it first or bump the version.'')), r1)
              else if \<not> dryRun
              then (case git_tag_a g r1 tag message of
                      (Inl e, r2) \<Rightarrow> (Inl e, r2)
                    | (Inr u, r2) \<Rightarrow> (Inr tag, r2))
              else (Inr tag, r1)))"

section \<open>Evaluation\<close>

text \<open>The defining equations that the simplifier unfolds to run the model on a concrete
  input.\<close>

lemmas str_defs = code_def isWhiteSpace_def isLineTerminator_def trim_def part_or_empty_def
  toLowerCase_char_def toLowerCase_def is_az_def Let_def

lemmas parser_defs = match_scope_def match_bang_def match_description_def
  match_COMMIT_PATTERN_def ci_eq_def breaking_body_here_def raw_hash_def raw_subject_def
  raw_body_def or_null_def parseCommit_def parseCommits_def

section \<open>The commit parser\<close>

text \<open>
  The matcher and the grammar agree.  Every result of the matcher is a reading of the
  subject by the grammar; and every subject the grammar reads is matched, with the same
  type, scope and \<open>!\<close>, and with the description that the greedy white space before it
  leaves.
\<close>

lemma match_description_sound:
  assumes "match_description r = Some d"
  shows "\<exists>w2. r = w2 @ d \<and> list_all isWhiteSpace w2 \<and> d \<noteq> [] \<and> list_all (\<lambda>c. \<not> isLineTerminator c) d"
proof (cases "dropWhile isWhiteSpace r = []")
  case False
  with assms have d: "d = dropWhile isWhiteSpace r" and nl: "\<not> list_ex isLineTerminator d"
    by (auto simp: match_description_def Let_def split: if_splits)
  have 1: "r = takeWhile isWhiteSpace r @ d" by (simp add: d)
  have 2: "list_all isWhiteSpace (takeWhile isWhiteSpace r)"
    by (auto simp: list_all_iff dest: set_takeWhileD)
  have 3: "d \<noteq> []" using False d by simp
  have 4: "list_all (\<lambda>c. \<not> isLineTerminator c) d" using nl by (simp add: list_all_iff list_ex_iff)
  show ?thesis using 1 2 3 4 by blast
next
  case True
  then have all: "\<forall>c\<in>set r. isWhiteSpace c" by (simp add: dropWhile_eq_Nil_conv)
  then have tw: "takeWhile isWhiteSpace r = r" by (simp add: takeWhile_eq_all_conv)
  from assms True tw have r: "r \<noteq> []" and l: "\<not> isLineTerminator (last r)" and d: "d = [last r]"
    by (auto simp: match_description_def Let_def split: if_splits)
  have "r = butlast r @ d" using r d by simp
  moreover have "list_all isWhiteSpace (butlast r)"
    using all by (auto simp: list_all_iff dest: in_set_butlastD)
  ultimately show ?thesis using l d by auto
qed

lemma match_COMMIT_PATTERN_sound:
  assumes "match_COMMIT_PATTERN s = Some (ty, sc, br, d)"
  shows "\<exists>w1 w2. pattern_pieces ty sc w1 w2 d \<and> s = pattern_text ty sc br w1 w2 d"
proof -
  define r1 where "r1 = dropWhile is_az s"
  have ty: "ty = takeWhile is_az s" and tyne: "ty \<noteq> []"
    using assms by (auto simp: match_COMMIT_PATTERN_def Let_def split: if_splits option.splits prod.splits list.splits)
  have s: "s = ty @ r1" by (simp add: ty r1_def)
  have az: "list_all is_az ty" by (auto simp: ty list_all_iff dest: set_takeWhileD)
  obtain r2 where ms: "match_scope r1 = Some (sc, r2)"
    using assms by (auto simp: match_COMMIT_PATTERN_def Let_def r1_def split: if_splits option.splits prod.splits list.splits)
  obtain r3 where mb: "match_bang r2 = (br, r3)"
    using assms ms by (auto simp: match_COMMIT_PATTERN_def Let_def r1_def split: if_splits option.splits prod.splits list.splits)
  obtain r5 where r4: "dropWhile isWhiteSpace r3 = CHR '':'' # r5" and md: "match_description r5 = Some d"
    using assms ms mb by (auto simp: match_COMMIT_PATTERN_def Let_def r1_def split: if_splits option.splits prod.splits list.splits)
  have sc: "r1 = (case sc of None \<Rightarrow> [] | Some x \<Rightarrow> ''('' @ x @ '')'') @ r2 \<and>
            (case sc of None \<Rightarrow> True | Some x \<Rightarrow> x \<noteq> [] \<and> list_all (\<lambda>c. c \<noteq> CHR '')'') x)"
  proof (cases sc)
    case None
    with ms show ?thesis by (auto simp: match_scope_def Let_def split: list.splits if_splits)
  next
    case (Some x)
    from ms Some obtain t where r1: "r1 = CHR ''('' # t" and x: "x = takeWhile (\<lambda>c. c \<noteq> CHR '')'') t"
      and xne: "x \<noteq> []" and rest: "dropWhile (\<lambda>c. c \<noteq> CHR '')'') t \<noteq> []"
      and r2: "r2 = tl (dropWhile (\<lambda>c. c \<noteq> CHR '')'') t)"
      by (auto simp: match_scope_def Let_def split: list.splits if_splits)
    have "hd (dropWhile (\<lambda>c. c \<noteq> CHR '')'') t) = CHR '')''"
      using rest hd_dropWhile [of "\<lambda>c. c \<noteq> CHR '')''" t] by auto
    then have "dropWhile (\<lambda>c. c \<noteq> CHR '')'') t = CHR '')'' # r2" using rest r2 by (cases "dropWhile (\<lambda>c. c \<noteq> CHR '')'') t") auto
    then have "t = x @ CHR '')'' # r2" using takeWhile_dropWhile_id [of "\<lambda>c. c \<noteq> CHR '')''" t] x by simp
    moreover have "list_all (\<lambda>c. c \<noteq> CHR '')'') x" by (auto simp: x list_all_iff dest: set_takeWhileD)
    ultimately show ?thesis using Some r1 xne by simp
  qed
  have br: "r2 = (if br then ''!'' else []) @ r3"
    using mb by (auto simp: match_bang_def split: list.splits if_splits)
  have w1: "r3 = takeWhile isWhiteSpace r3 @ CHR '':'' # r5" using r4 takeWhile_dropWhile_id [of isWhiteSpace r3] by simp
  have w1ws: "list_all isWhiteSpace (takeWhile isWhiteSpace r3)" by (auto simp: list_all_iff dest: set_takeWhileD)
  from match_description_sound [OF md] obtain w2 where
    w2: "r5 = w2 @ d" "list_all isWhiteSpace w2" "d \<noteq> []" "list_all (\<lambda>c. \<not> isLineTerminator c) d" by blast
  have "pattern_pieces ty sc (takeWhile isWhiteSpace r3) w2 d"
    using tyne az sc w1ws w2 by (simp add: pattern_pieces_def)
  moreover have "s = pattern_text ty sc br (takeWhile isWhiteSpace r3) w2 d"
    unfolding pattern_text_def using s sc br w1 w2(1) by simp
  ultimately show ?thesis by blast
qed


lemma ws_not_special:
  "isWhiteSpace c \<Longrightarrow> \<not> is_az c \<and> c \<noteq> CHR ''('' \<and> c \<noteq> CHR ''!'' \<and> c \<noteq> CHR '':''"
  by (auto simp: isWhiteSpace_def is_az_def code_def)

lemma match_description_complete:
  assumes w2: "list_all isWhiteSpace w2" and d: "d \<noteq> []" "list_all (\<lambda>c. \<not> isLineTerminator c) d"
  shows "match_description (w2 @ d) =
           Some (if list_all isWhiteSpace d then [last d] else dropWhile isWhiteSpace d)"
proof -
  have w: "\<forall>c\<in>set w2. isWhiteSpace c" using w2 by (simp add: list_all_iff)
  have tw: "takeWhile isWhiteSpace (w2 @ d) = w2 @ takeWhile isWhiteSpace d"
    using w by (simp add: takeWhile_append2)
  have dw: "dropWhile isWhiteSpace (w2 @ d) = dropWhile isWhiteSpace d"
    using w by (simp add: dropWhile_append2)
  show ?thesis
  proof (cases "list_all isWhiteSpace d")
    case True
    then have e: "dropWhile isWhiteSpace d = []" "takeWhile isWhiteSpace d = d"
      by (simp_all add: list_all_iff takeWhile_eq_all_conv)
    have "\<not> isLineTerminator (last d)" using d by (simp add: list_all_iff)
    then show ?thesis using True d by (simp add: match_description_def tw dw e)
  next
    case False
    then have ne: "dropWhile isWhiteSpace d \<noteq> []" by (simp add: list_all_iff dropWhile_eq_Nil_conv)
    have "\<not> list_ex isLineTerminator (dropWhile isWhiteSpace d)"
      using d by (auto simp: list_all_iff list_ex_iff dest: set_dropWhileD)
    then show ?thesis using False ne by (simp add: match_description_def dw)
  qed
qed

lemma match_COMMIT_PATTERN_complete:
  assumes p: "pattern_pieces ty sc w1 w2 d"
  shows "match_COMMIT_PATTERN (pattern_text ty sc br w1 w2 d) =
           Some (ty, sc, br, if list_all isWhiteSpace d then [last d] else dropWhile isWhiteSpace d)"
proof -
  from p have ty: "ty \<noteq> []" "\<forall>c\<in>set ty. is_az c"
    and w1: "\<forall>c\<in>set w1. isWhiteSpace c"
    and w2: "list_all isWhiteSpace w2" and d: "d \<noteq> []" "list_all (\<lambda>c. \<not> isLineTerminator c) d"
    by (simp_all add: pattern_pieces_def list_all_iff)
  define r5 where "r5 = w2 @ d"
  define r3 where "r3 = w1 @ CHR '':'' # r5"
  define r2 where "r2 = (if br then ''!'' else []) @ r3"
  define r1 where "r1 = (case sc of None \<Rightarrow> [] | Some x \<Rightarrow> ''('' @ x @ '')'') @ r2"
  have tx: "pattern_text ty sc br w1 w2 d = ty @ r1"
    by (simp add: pattern_text_def r1_def r2_def r3_def r5_def)
  have r3hd: "r3 \<noteq> [] \<and> \<not> is_az (hd r3) \<and> hd r3 \<noteq> CHR ''('' \<and> hd r3 \<noteq> CHR ''!''"
  proof (cases w1)
    case Nil
    then show ?thesis by (simp add: r3_def is_az_def code_def)
  next
    case (Cons c cs)
    then have "isWhiteSpace c" using w1 by simp
    then show ?thesis using Cons ws_not_special [of c] by (simp add: r3_def)
  qed
  have r2hd: "r2 \<noteq> [] \<and> \<not> is_az (hd r2) \<and> hd r2 \<noteq> CHR ''(''"
    using r3hd by (simp add: r2_def is_az_def code_def)
  have r1hd: "r1 \<noteq> [] \<and> \<not> is_az (hd r1)"
    using r2hd by (cases sc) (simp_all add: r1_def is_az_def code_def)
  have tw: "takeWhile is_az (ty @ r1) = ty"
    using ty r1hd by (cases r1) (simp_all add: takeWhile_append2)
  have dw: "dropWhile is_az (ty @ r1) = r1"
    using ty r1hd by (cases r1) (simp_all add: dropWhile_append2)
  have ms: "match_scope r1 = Some (sc, r2)"
  proof (cases sc)
    case None
    then show ?thesis using r2hd by (cases r2) (simp_all add: r1_def match_scope_def)
  next
    case (Some x)
    with p have x: "x \<noteq> []" "\<forall>c\<in>set x. c \<noteq> CHR '')''"
      by (simp_all add: pattern_pieces_def list_all_iff)
    have "takeWhile (\<lambda>c. c \<noteq> CHR '')'') (x @ CHR '')'' # r2) = x"
      using x by (simp add: takeWhile_append2)
    moreover have "dropWhile (\<lambda>c. c \<noteq> CHR '')'') (x @ CHR '')'' # r2) = CHR '')'' # r2"
      using x by (simp add: dropWhile_append2)
    ultimately show ?thesis using Some x by (simp add: r1_def match_scope_def Let_def)
  qed
  have mb: "match_bang r2 = (br, r3)"
    using r3hd by (cases r3) (simp_all add: r2_def match_bang_def)
  have r4: "dropWhile isWhiteSpace r3 = CHR '':'' # r5"
    using w1 by (simp add: r3_def dropWhile_append2 isWhiteSpace_def code_def)
  have md: "match_description r5 =
      Some (if list_all isWhiteSpace d then [last d] else dropWhile isWhiteSpace d)"
    unfolding r5_def by (rule match_description_complete [OF w2 d])
  show ?thesis
    unfolding tx match_COMMIT_PATTERN_def Let_def tw dw
    using ty(1) by (simp add: ms mb r4 md)
qed

text \<open>The body test finds the phrase, in any mix of cases, followed by a colon or a white
  space character, anywhere in the body.\<close>

lemma ci_prefix_iff:
  "ci_prefix p s = Some r \<longleftrightarrow> (\<exists>m. s = m @ r \<and> list_all2 ci_eq p m)"
proof (induction p s rule: ci_prefix.induct)
  case (1 s)
  show ?case by auto
next
  case (2 p ps)
  show ?case by (auto simp: list_all2_Cons1)
next
  case (3 p ps c cs)
  show ?case
  proof (cases "ci_eq p c")
    case True
    with 3 show ?thesis by (auto simp: list_all2_Cons1)
  next
    case False
    then show ?thesis by (auto simp: list_all2_Cons1)
  qed
qed

lemma breaking_body_here_iff:
  "breaking_body_here s \<longleftrightarrow>
     (\<exists>m c post. s = m @ c # post \<and> list_all2 ci_eq ''BREAKING CHANGE'' m \<and>
                  (c = CHR '':'' \<or> isWhiteSpace c))"
proof
  assume "breaking_body_here s"
  then obtain c post where r: "ci_prefix ''BREAKING CHANGE'' s = Some (c # post)"
    and c: "c = CHR '':'' \<or> isWhiteSpace c"
    by (auto simp: breaking_body_here_def split: option.splits list.splits)
  from r obtain m where "s = m @ c # post" "list_all2 ci_eq ''BREAKING CHANGE'' m"
    unfolding ci_prefix_iff by blast
  with c show "\<exists>m c post. s = m @ c # post \<and> list_all2 ci_eq ''BREAKING CHANGE'' m \<and>
                  (c = CHR '':'' \<or> isWhiteSpace c)" by blast
next
  assume "\<exists>m c post. s = m @ c # post \<and> list_all2 ci_eq ''BREAKING CHANGE'' m \<and>
                  (c = CHR '':'' \<or> isWhiteSpace c)"
  then obtain m c post where s: "s = m @ c # post" and m: "list_all2 ci_eq ''BREAKING CHANGE'' m"
    and c: "c = CHR '':'' \<or> isWhiteSpace c" by blast
  have "ci_prefix ''BREAKING CHANGE'' s = Some (c # post)"
    unfolding ci_prefix_iff using s m by blast
  then show "breaking_body_here s" using c by (simp add: breaking_body_here_def)
qed

lemma test_BREAKING_BODY_PATTERN_iff:
  "test_BREAKING_BODY_PATTERN b \<longleftrightarrow>
     (\<exists>pre m c post. b = pre @ m @ c # post \<and> list_all2 ci_eq ''BREAKING CHANGE'' m \<and>
                      (c = CHR '':'' \<or> isWhiteSpace c))"
proof (induction b)
  case Nil
  show ?case by simp
next
  case (Cons x xs)
  show ?case
  proof
    assume "test_BREAKING_BODY_PATTERN (x # xs)"
    then consider "breaking_body_here (x # xs)" | "test_BREAKING_BODY_PATTERN xs" by auto
    then show "\<exists>pre m c post. x # xs = pre @ m @ c # post \<and> list_all2 ci_eq ''BREAKING CHANGE'' m \<and>
                      (c = CHR '':'' \<or> isWhiteSpace c)"
    proof cases
      case 1
      then obtain m c post where "x # xs = [] @ m @ c # post" "list_all2 ci_eq ''BREAKING CHANGE'' m"
        "c = CHR '':'' \<or> isWhiteSpace c" unfolding breaking_body_here_iff by auto
      then show ?thesis by blast
    next
      case 2
      then obtain pre m c post where "xs = pre @ m @ c # post" "list_all2 ci_eq ''BREAKING CHANGE'' m"
        "c = CHR '':'' \<or> isWhiteSpace c" unfolding Cons.IH by blast
      then have "x # xs = (x # pre) @ m @ c # post" by simp
      then show ?thesis using \<open>list_all2 ci_eq ''BREAKING CHANGE'' m\<close> \<open>c = CHR '':'' \<or> isWhiteSpace c\<close>
        by blast
    qed
  next
    assume "\<exists>pre m c post. x # xs = pre @ m @ c # post \<and> list_all2 ci_eq ''BREAKING CHANGE'' m \<and>
                      (c = CHR '':'' \<or> isWhiteSpace c)"
    then obtain pre m c post where e: "x # xs = pre @ m @ c # post"
      and m: "list_all2 ci_eq ''BREAKING CHANGE'' m" and c: "c = CHR '':'' \<or> isWhiteSpace c" by blast
    show "test_BREAKING_BODY_PATTERN (x # xs)"
    proof (cases pre)
      case Nil
      then have "breaking_body_here (x # xs)" unfolding breaking_body_here_iff using e m c by auto
      then show ?thesis by simp
    next
      case c2: (Cons y ys)
      then have "xs = ys @ m @ c # post" using e by simp
      then have "test_BREAKING_BODY_PATTERN xs" unfolding Cons.IH using m c by blast
      then show ?thesis by simp
    qed
  qed
qed

lemma match_type_nonempty:
  "match_COMMIT_PATTERN s = Some (ty, sc, br, d) \<Longrightarrow> ty \<noteq> [] \<and> list_all is_az ty"
  by (auto simp: match_COMMIT_PATTERN_def Let_def list_all_iff
      split: if_splits option.splits prod.splits list.splits dest: set_takeWhileD)

text \<open>
  C6.  \<open>parseCommit\<close> returns a commit exactly when the trimmed subject of the record
  is not empty, and \<open>parseCommits\<close> keeps exactly those records, in order.  The function
  has no failing branch: it is total.  The type of a returned commit is never empty, and
  it is \<open>other\<close> when the subject does not match the pattern.
\<close>

theorem parseCommit_total:
  "(parseCommit r \<noteq> None \<longleftrightarrow> raw_subject r \<noteq> []) \<and>
   (\<forall>c. parseCommit r = Some c \<longrightarrow>
      type c \<noteq> [] \<and> (match_COMMIT_PATTERN (raw_subject r) = None \<longrightarrow> type c = ''other'')) \<and>
   parseCommits rs = map (\<lambda>r. the (parseCommit r)) (filter (\<lambda>r. raw_subject r \<noteq> []) rs)"
proof (intro conjI allI impI)
  show "parseCommit r \<noteq> None \<longleftrightarrow> raw_subject r \<noteq> []"
    by (simp add: parseCommit_def Let_def split: option.splits prod.splits)
next
  fix c assume c: "parseCommit r = Some c"
  show "type c \<noteq> []"
  proof (cases "match_COMMIT_PATTERN (raw_subject r)")
    case None
    with c show ?thesis by (auto simp: parseCommit_def Let_def split: if_splits)
  next
    case (Some m)
    obtain ty sc br d where m: "m = (ty, sc, br, d)" by (cases m)
    from Some m have "ty \<noteq> []" using match_type_nonempty by blast
    with c Some m show ?thesis
      by (auto simp: parseCommit_def Let_def toLowerCase_def split: if_splits)
  qed
next
  fix c assume "parseCommit r = Some c" and "match_COMMIT_PATTERN (raw_subject r) = None"
  then show "type c = ''other''"
    by (auto simp: parseCommit_def Let_def split: if_splits)
next
  have iff: "(parseCommit x = None) = (raw_subject x = [])" for x
    by (simp add: parseCommit_def Let_def split: option.splits prod.splits)
  show "parseCommits rs = map (\<lambda>r. the (parseCommit r)) (filter (\<lambda>r. raw_subject r \<noteq> []) rs)"
    unfolding parseCommits_def by (simp add: filter_map comp_def iff del: not_None_eq)
qed

text \<open>The theorem at a record with an ungrammatical subject, among records without a
  subject.\<close>

theorem parseCommit_total_witness:
  "parseCommit (''h1'' @ [CHR 0x00] @ ''just a message'')
     = Some \<lparr>hash = ''h1'', type = ''other'', scope = None, description = ''just a message'',
          body = [], breaking = False, raw = ''just a message''\<rparr> \<and>
   match_COMMIT_PATTERN (raw_subject (''h1'' @ [CHR 0x00] @ ''just a message'')) = None \<and>
   parseCommits [''h0'', ''h1'' @ [CHR 0x00] @ ''just a message'', ''h2'' @ [CHR 0x00] @ ''  '']
     = [the (parseCommit (''h1'' @ [CHR 0x00] @ ''just a message''))]"
  using parseCommit_total [of "''h1'' @ [CHR 0x00] @ ''just a message''"
      "[''h0'', ''h1'' @ [CHR 0x00] @ ''just a message'', ''h2'' @ [CHR 0x00] @ ''  '']"]
  by (simp add: str_defs parser_defs)

text \<open>
  C10.  A subject made of lower-case letters, then \<open>():\<close>, then anything, does not match
  the pattern, because the scope between the parentheses must have a character.  The
  commit is then of type \<open>other\<close>, without scope, and its description is the whole
  trimmed subject.
\<close>

theorem empty_scope_not_matched:
  assumes t: "list_all is_az t" and s: "raw_subject r = t @ ''():'' @ d"
  shows "match_COMMIT_PATTERN (raw_subject r) = None \<and>
         parseCommit r = Some \<lparr>hash = raw_hash r, type = ''other'', scope = None,
           description = raw_subject r, body = raw_body r, breaking = False,
           raw = raw_subject r\<rparr>"
proof -
  have tw: "takeWhile is_az (t @ CHR ''('' # u) = t" for u
    using t by (simp add: takeWhile_append2 list_all_iff is_az_def code_def)
  have dw: "dropWhile is_az (t @ CHR ''('' # u) = CHR ''('' # u" for u
    using t by (simp add: dropWhile_append2 list_all_iff is_az_def code_def)
  have m: "match_COMMIT_PATTERN (t @ ''():'' @ d) = None"
    by (simp add: match_COMMIT_PATTERN_def tw dw match_scope_def Let_def)
  have ne: "raw_subject r \<noteq> []" using s by simp
  have m': "match_COMMIT_PATTERN (raw_subject r) = None" using m s by simp
  show ?thesis using m' ne by (simp add: parseCommit_def Let_def)
qed

theorem empty_scope_not_matched_witness:
  "list_all is_az ''feat'' \<and>
   raw_subject (''abc1234'' @ [CHR 0x00] @ ''feat(): add export'')
     = ''feat'' @ ''():'' @ '' add export'' \<and>
   match_COMMIT_PATTERN ''feat(): add export'' = None \<and>
   parseCommit (''abc1234'' @ [CHR 0x00] @ ''feat(): add export'')
     = Some \<lparr>hash = ''abc1234'', type = ''other'', scope = None,
           description = ''feat(): add export'', body = [], breaking = False,
           raw = ''feat(): add export''\<rparr>"
proof -
  have t: "list_all is_az ''feat''" by (simp add: str_defs)
  have s: "raw_subject (''abc1234'' @ [CHR 0x00] @ ''feat(): add export'')
             = ''feat'' @ ''():'' @ '' add export''"
    by (simp add: str_defs parser_defs)
  have h: "raw_hash (''abc1234'' @ [CHR 0x00] @ ''feat(): add export'') = ''abc1234''"
    by (simp add: str_defs parser_defs)
  have b: "raw_body (''abc1234'' @ [CHR 0x00] @ ''feat(): add export'') = []"
    by (simp add: str_defs parser_defs)
  show ?thesis using empty_scope_not_matched [OF t s] t s h b by simp
qed

text \<open>
  C1.  The record with subject \<open>just a message\<close> and body
  \<open>BREAKING CHANGE: drop the v1 API\<close>: the subject does not match the pattern, the body
  matches the body pattern, and the commit returned is not breaking.  The branch for an
  unmatched subject returns before the body is tested.
\<close>

theorem body_phrase_ignored_without_grammar:
  "match_COMMIT_PATTERN ''just a message'' = None \<and>
   test_BREAKING_BODY_PATTERN ''BREAKING CHANGE: drop the v1 API'' \<and>
   parseCommit (''abc1234'' @ [CHR 0x00] @ ''just a message'' @ [CHR 0x00]
                  @ ''BREAKING CHANGE: drop the v1 API'')
     = Some \<lparr>hash = ''abc1234'', type = ''other'', scope = None,
          description = ''just a message'', body = ''BREAKING CHANGE: drop the v1 API'',
          breaking = False, raw = ''just a message''\<rparr>"
  by (simp add: str_defs parser_defs)

section \<open>Doubles that are integers\<close>

lemma ndigits_0 [simp]: "ndigits b 0 = 0"
  by (simp add: ndigits.simps)

lemma ndigits_pos: "2 \<le> b \<Longrightarrow> 0 < n \<Longrightarrow> ndigits b n = Suc (ndigits b (n div b))"
  by (subst ndigits.simps) simp

lemma ndigits_unique:
  "2 \<le> b \<Longrightarrow> b ^ k \<le> n \<Longrightarrow> n < b ^ Suc k \<Longrightarrow> ndigits b n = Suc k"
proof (induction k arbitrary: n)
  case 0
  then have "0 < n" "n div b = 0" by auto
  with 0 show ?case by (simp add: ndigits_pos)
next
  case (Suc k)
  have b: "0 < b" using Suc.prems by simp
  have n: "0 < n" using Suc.prems b by (metis less_le_trans zero_less_power)
  have lo: "b ^ k \<le> n div b"
    using Suc.prems b by (simp add: less_eq_div_iff_mult_less_eq mult.commute)
  have hi: "n div b < b ^ Suc k"
    using Suc.prems b by (simp add: div_less_iff_less_mult mult.commute)
  show ?case using Suc.IH [OF Suc.prems(1) lo hi] Suc.prems n by (simp add: ndigits_pos)
qed

lemma ndigits_bounds:
  "2 \<le> b \<Longrightarrow> 0 < n \<Longrightarrow> b ^ (ndigits b n - 1) \<le> n \<and> n < b ^ ndigits b n"
proof (induction b n rule: ndigits.induct)
  case (1 b n)
  show ?case
  proof (cases "n div b = 0")
    case True
    then have "n < b" using 1 by (simp add: div_eq_0_iff)
    with 1 True show ?thesis by (simp add: ndigits_pos)
  next
    case False
    then have p: "0 < n div b" by simp
    have ih: "b ^ (ndigits b (n div b) - 1) \<le> n div b \<and> n div b < b ^ ndigits b (n div b)"
      using 1 p by simp
    have nd: "0 < ndigits b (n div b)" using p 1 by (simp add: ndigits_pos)
    have b: "0 < b" using 1 by simp
    have "b ^ ndigits b (n div b) \<le> n"
    proof -
      have "b * b ^ (ndigits b (n div b) - 1) \<le> b * (n div b)" using ih by simp
      also have "\<dots> \<le> n" by simp
      finally show ?thesis using nd by (cases "ndigits b (n div b)") (simp_all add: mult.commute)
    qed
    moreover have "n < b ^ Suc (ndigits b (n div b))"
      using ih b by (simp add: div_less_iff_less_mult mult.commute)
    ultimately show ?thesis using 1 by (simp add: ndigits_pos)
  qed
qed


lemma pow_nonneg_exp: "0 \<le> e \<Longrightarrow> pow b e = of_nat b ^ nat e"
  by (simp add: pow_def)

lemma pow_pos: "0 < b \<Longrightarrow> 0 < pow b e"
  by (simp add: pow_def)

lemma pow_int [simp]: "pow b (int n) = of_nat b ^ n"
  by (simp add: pow_def)

lemma floor_log_int: "1 \<le> m \<Longrightarrow> floor_log b (of_int m) = int (ndigits b (nat m)) - 1"
  by (simp add: floor_log_def)

lemma floor_log_int_bounds:
  assumes b: "2 \<le> b" and m: "1 \<le> (m::int)"
  shows "0 \<le> floor_log b (of_int m)"
    and "int b ^ nat (floor_log b (of_int m)) \<le> m"
    and "m < int b ^ nat (floor_log b (of_int m) + 1)"
proof -
  have n: "0 < nat m" using m by simp
  have nd: "0 < ndigits b (nat m)" using b n by (simp add: ndigits_pos)
  from ndigits_bounds [OF b n]
  have lo: "b ^ (ndigits b (nat m) - 1) \<le> nat m" and hi: "nat m < b ^ ndigits b (nat m)"
    by simp_all
  show "0 \<le> floor_log b (of_int m)" using nd m by (simp add: floor_log_int)
  have e: "nat (floor_log b (of_int m)) = ndigits b (nat m) - 1"
    using nd m by (simp add: floor_log_int)
  have e1: "nat (floor_log b (of_int m) + 1) = ndigits b (nat m)"
    using nd m by (simp add: floor_log_int)
  have "int (b ^ (ndigits b (nat m) - 1)) \<le> int (nat m)" using lo by (simp only: of_nat_le_iff)
  then show "int b ^ nat (floor_log b (of_int m)) \<le> m" using m by (simp add: e)
  have "int (nat m) < int (b ^ ndigits b (nat m))" using hi by (simp only: of_nat_less_iff)
  then show "m < int b ^ nat (floor_log b (of_int m) + 1)" using m by (simp add: e1)
qed

lemma round_half_even_of_int [simp]: "round_half_even (of_int z) = z"
  by (simp add: round_half_even_def)

lemma round_pos_exact:
  assumes a: "0 < a"
    and z: "a / pow 2 (max (floor_log 2 a - 52) (- 1074)) = of_int z"
    and lt: "a < pow 2 1024"
  shows "round_pos a = Fin a"
proof -
  let ?q = "max (floor_log 2 a - 52) (- 1074)"
  have p: "0 < pow 2 ?q" by (simp add: pow_pos)
  have r: "round_half_even (a / pow 2 ?q) = z" by (simp add: z)
  have "a = of_int z * pow 2 ?q" using z p by (simp add: field_simps)
  then have v: "of_int (round_half_even (a / pow 2 ?q)) * pow 2 ?q = a" by (simp add: r)
  show ?thesis
    unfolding round_pos_def Let_def v using lt by simp
qed

lemma round_pos_int_exact:
  assumes m: "0 < (m::int)" and dvd: "2 ^ i dvd m" and le: "m \<le> 2 ^ (53 + i)" and i: "i \<le> 900"
  shows "round_pos (of_int m) = Fin (of_int m)"
proof -
  have A: "0 < (of_int m :: rat)" using m by simp
  have "(2::int) ^ (53 + i) < 2 ^ 1024" using i by (intro power_strict_increasing) simp_all
  then have "m < 2 ^ 1024" using le by linarith
  then have "(of_int m :: rat) < of_int (2 ^ 1024)" by (simp only: of_int_less_iff)
  then have L: "(of_int m :: rat) < pow 2 1024" by (simp add: pow_def)
  let ?e = "floor_log 2 (of_int m :: rat)"
  have m1: "1 \<le> m" using m by simp
  note bs = floor_log_int_bounds [OF order_refl m1]
  have e0: "0 \<le> ?e" using bs(1) .
  have lo: "2 ^ nat ?e \<le> m" using bs(2) by simp
  have eub: "?e \<le> 53 + int i"
  proof (rule ccontr)
    assume "\<not> ?e \<le> 53 + int i"
    then have "53 + i < nat ?e" by linarith
    then have "(2::int) ^ (53 + i) < 2 ^ nat ?e" by (intro power_strict_increasing) simp_all
    with lo le show False by linarith
  qed
  have q: "max (?e - 52) (- 1074) = ?e - 52" using e0 by simp
  have Z: "of_int m / pow 2 (max (?e - 52) (- 1074)) = (of_int (if ?e \<le> 52 then m * 2 ^ nat (52 - ?e) else m div 2 ^ nat (?e - 52)) :: rat)"
  proof (cases "?e \<le> 52")
    case True
    then have "pow 2 (?e - 52) = 1 / 2 ^ nat (52 - ?e)"
      by (cases "?e = 52") (simp_all add: pow_def)
    then show ?thesis using True by (simp add: q)
  next
    case False
    then have p: "pow 2 (?e - 52) = 2 ^ nat (?e - 52)" by (simp add: pow_def)
    have d: "(2::int) ^ nat (?e - 52) dvd m"
    proof (cases "nat (?e - 52) \<le> i")
      case True
      then have "(2::int) ^ nat (?e - 52) dvd 2 ^ i" by (simp add: le_imp_power_dvd)
      then show ?thesis using dvd by (rule dvd_trans)
    next
      case False
      then have "?e = 53 + int i" using eub by linarith
      then have ne: "nat ?e = 53 + i" by simp
      then have meq: "m = 2 ^ (53 + i)" using lo le by simp
      have "nat (?e - 52) \<le> 53 + i" using ne by linarith
      then have "(2::int) ^ nat (?e - 52) dvd 2 ^ (53 + i)" by (rule le_imp_power_dvd)
      then show ?thesis by (subst (2) meq)
    qed
    have "(of_int m :: rat) / of_int (2 ^ nat (?e - 52)) = of_int (m div 2 ^ nat (?e - 52))"
      using of_int_div [OF d, where ?'a = rat] by simp
    then show ?thesis using False by (simp add: q p)
  qed
  show ?thesis by (rule round_pos_exact [OF A Z L])
qed


lemma round_double_int_exact:
  assumes "0 \<le> (m::int)" and "2 ^ i dvd m" and "m \<le> 2 ^ (53 + i)" and "i \<le> 900"
  shows "round_double (of_int m) = Fin (of_int m)"
proof (cases "m = 0")
  case True
  then show ?thesis by (simp add: round_double_def)
next
  case False
  then have "0 < m" using assms(1) by simp
  from round_pos_int_exact [OF this assms(2-4)] \<open>0 < m\<close>
  show ?thesis by (simp add: round_double_def)
qed

lemma round_double_safe: "0 \<le> (m::int) \<Longrightarrow> m \<le> 2 ^ 53 \<Longrightarrow> round_double (of_int m) = Fin (of_int m)"
  using round_double_int_exact [of m 0] by simp

lemma round_double_even: "0 \<le> (m::int) \<Longrightarrow> even m \<Longrightarrow> m \<le> 2 ^ 54 \<Longrightarrow> round_double (of_int m) = Fin (of_int m)"
  using round_double_int_exact [of m 1] by simp

lemma show_nat_times_10: "0 < n \<Longrightarrow> show_nat (n * 10) = show_nat n @ ''0''"
  by (subst show_nat.simps) (simp add: digit_char_def)

lemma show_nat_shift: "0 < s \<Longrightarrow> show_nat (s * 10 ^ z) = show_nat s @ replicate z (CHR ''0'')"
proof (induction z)
  case 0
  then show ?case by simp
next
  case (Suc z)
  have "s * 10 ^ Suc z = (s * 10 ^ z) * 10" by simp
  then have "show_nat (s * 10 ^ Suc z) = show_nat ((s * 10 ^ z) * 10)" by (simp only:)
  also have "\<dots> = show_nat (s * 10 ^ z) @ ''0''" using Suc.prems by (intro show_nat_times_10) simp
  also have "\<dots> = show_nat s @ replicate (Suc z) (CHR ''0'')"
    using Suc by (simp add: replicate_append_same)
  finally show ?case .
qed

text \<open>The candidate with \<open>k\<close> digits for an integer up to \<open>2^53\<close>: it exists exactly
  when the digits dropped are zeros.\<close>

lemma candidate_int:
  assumes m: "0 < (m::int)" "m \<le> 2 ^ 53"
    and d: "d = ndigits 10 (nat m)"
    and k: "1 \<le> k" "k \<le> d"
  shows "candidate (of_int m) (int d) k =
           (if 10 ^ (d - k) dvd m then Some (int d, nat (m div 10 ^ (d - k))) else None)"
proof -
  define S :: int where "S = 10 ^ (d - k)"
  have S: "0 < S" by (simp add: S_def)
  have scale: "pow 10 (int d - int k) = (of_int S :: rat)"
    using k by (simp add: pow_def S_def nat_diff_distrib')
  define lo where "lo = m div S"
  have lo: "\<lfloor>(of_int m :: rat) / of_int S\<rfloor> = lo"
    by (simp add: lo_def floor_divide_of_int_eq)
  have n: "0 < nat m" using m by simp
  from ndigits_bounds [of 10 "nat m"] n d
  have b1: "10 ^ (d - 1) \<le> nat m" and b2: "nat m < 10 ^ d" by simp_all
  have mlo: "(10::int) ^ (d - 1) \<le> m"
  proof -
    have "int (10 ^ (d - 1)) \<le> int (nat m)" using b1 by (simp only: of_nat_le_iff)
    then show ?thesis using m by simp
  qed
  have mhi: "m < (10::int) ^ d"
  proof -
    have "int (nat m) < int (10 ^ d)" using b2 by (simp only: of_nat_less_iff)
    then show ?thesis using m by simp
  qed
  have lo0: "0 \<le> lo" using m S by (simp add: lo_def pos_imp_zdiv_nonneg_iff)
  have loeq: "lo * S = m - m mod S" by (simp add: lo_def minus_mod_eq_div_mult)
  have md: "0 \<le> m mod S" "m mod S < S" using S by simp_all
  have loS: "lo * S \<le> m" using loeq md by linarith
  have hiS: "m < (lo + 1) * S" using loeq md by (simp add: distrib_right)
  have Sd: "S * 10 ^ k = 10 ^ d" using k by (simp add: S_def power_add [symmetric])
  have lolt: "lo < 10 ^ k"
  proof (rule ccontr)
    assume "\<not> lo < 10 ^ k"
    then have "10 ^ k * S \<le> lo * S" using S by simp
    with loS Sd mhi show False by (simp add: mult.commute)
  qed
  have rewr: "of_int lo * (of_int S :: rat) = of_int (lo * S)"
    "(of_int (lo + 1) :: rat) * of_int S = of_int ((lo + 1) * S)" by simp_all
  show ?thesis
  proof (cases "S dvd m")
    case True
    then have eq: "lo * S = m" by (simp add: lo_def)
    have ok: "round_double (of_int (lo * S)) = Fin (of_int m)"
      using m by (simp add: eq round_double_safe)
    have dl: "(of_int m :: rat) - of_int (lo * S) = 0" by (simp add: eq)
    have dh: "(0::rat) < of_int ((lo + 1) * S) - of_int m"
      using hiS by (simp del: of_int_mult of_int_add)
    have "candidate (of_int m) (int d) k = Some (int d, nat lo)"
      unfolding candidate_def Let_def scale lo rewr
      using ok dl dh lolt by (simp del: of_int_mult of_int_add)
    then show ?thesis using True by (simp add: S_def lo_def)
  next
    case False
    then have ne: "lo * S \<noteq> m" by (metis dvd_triv_right)
    have klt: "k < d"
    proof (rule ccontr)
      assume "\<not> k < d"
      then have "S = 1" using k by (simp add: S_def)
      with False show False by simp
    qed
    have ex1: "round_double (of_int (lo * S)) = Fin (of_int (lo * S))"
      using lo0 S loS m by (intro round_double_safe) (simp_all)
    have ok_lo: "round_double (of_int (lo * S)) \<noteq> Fin (of_int m)"
      using ne by (simp only: ex1 number.inject of_int_eq_iff not_False_eq_True)
    have evS: "even S"
    proof -
      have "S = 10 * 10 ^ (d - k - 1)" using klt by (simp add: S_def power_Suc [symmetric] Suc_diff_Suc del: power_Suc)
      then show ?thesis by simp
    qed
    have Sle: "S \<le> m"
    proof -
      have "S \<le> 10 ^ (d - 1)" using k by (simp add: S_def power_increasing)
      with mlo show ?thesis by linarith
    qed
    have "(lo + 1) * S \<le> m + S" using loS by (simp add: distrib_right)
    also have "\<dots> \<le> 2 ^ 54" using Sle m by simp
    finally have ub: "(lo + 1) * S \<le> 2 ^ 54" .
    have ex2: "round_double (of_int ((lo + 1) * S)) = Fin (of_int ((lo + 1) * S))"
      using lo0 S evS ub by (intro round_double_even) simp_all
    have ok_hi: "round_double (of_int ((lo + 1) * S)) \<noteq> Fin (of_int m)"
      using hiS by (simp only: ex2 number.inject of_int_eq_iff)
    have "candidate (of_int m) (int d) k = None"
      unfolding candidate_def Let_def scale lo rewr
      using ok_lo ok_hi by (simp del: of_int_mult of_int_add)
    then show ?thesis using False by (simp add: S_def)
  qed
qed

lemma shortest_int:
  assumes m: "0 < (m::int)" "m \<le> 2 ^ 53" and d: "d = ndigits 10 (nat m)"
  shows "1 \<le> k \<Longrightarrow> k \<le> d \<Longrightarrow> d - k < fuel \<Longrightarrow>
         \<exists>k'. k \<le> k' \<and> k' \<le> d \<and> 10 ^ (d - k') dvd m \<and>
              shortest (of_int m) (int d) k fuel = (int d, k', nat (m div 10 ^ (d - k')))"
proof (induction fuel arbitrary: k)
  case 0
  then show ?case by simp
next
  case (Suc fuel)
  note c = candidate_int [OF m d Suc.prems(1,2)]
  show ?case
  proof (cases "10 ^ (d - k) dvd m")
    case True
    then have "shortest (of_int m) (int d) k (Suc fuel) = (int d, k, nat (m div 10 ^ (d - k)))"
      by (subst shortest.simps) (simp add: c)
    with True Suc.prems show ?thesis by blast
  next
    case False
    have klt: "k < d"
    proof (rule ccontr)
      assume "\<not> k < d"
      then have "d - k = 0" by simp
      with False show False by simp
    qed
    then have p: "1 \<le> k + 1" "k + 1 \<le> d" "d - (k + 1) < fuel" using Suc.prems by simp_all
    from Suc.IH [OF p] obtain k' where
      k': "k + 1 \<le> k'" "k' \<le> d" "10 ^ (d - k') dvd m"
      "shortest (of_int m) (int d) (k + 1) fuel = (int d, k', nat (m div 10 ^ (d - k')))"
      by blast
    have k4: "shortest (of_int m) (int d) (Suc k) fuel = (int d, k', nat (m div 10 ^ (d - k')))"
      using k'(4) by simp
    have "shortest (of_int m) (int d) k (Suc fuel) = (int d, k', nat (m div 10 ^ (d - k')))"
      by (subst shortest.simps) (simp add: c False k4)
    with k' show ?thesis by (intro exI [of _ k']) simp
  qed
qed

lemma int_digits_le_16:
  assumes m: "0 < (m::int)" "m \<le> 2 ^ 53"
  shows "0 < ndigits 10 (nat m)" and "ndigits 10 (nat m) \<le> 16"
proof -
  have n: "0 < nat m" using m by simp
  show "0 < ndigits 10 (nat m)" using n by (simp add: ndigits_pos)
  from ndigits_bounds [of 10 "nat m"] n
  have b1: "10 ^ (ndigits 10 (nat m) - 1) \<le> nat m" by simp
  have A: "nat m \<le> 2 ^ 53" using m by (simp add: nat_le_iff)
  have B: "(2::nat) ^ 53 < 10 ^ 16" by simp
  have "(10::nat) ^ (ndigits 10 (nat m) - 1) \<le> 2 ^ 53" using b1 A by (rule order_trans)
  then have "(10::nat) ^ (ndigits 10 (nat m) - 1) < 10 ^ 16" using B by (rule le_less_trans)
  then have "ndigits 10 (nat m) - 1 < 16" by (simp only: power_strict_increasing_iff rel_simps) 
  then show "ndigits 10 (nat m) \<le> 16" by simp
qed

lemma ToString_pos_int:
  assumes m: "0 < (m::int)" "m \<le> 2 ^ 53"
  shows "ToString_pos (of_int m) = show_nat (nat m)"
proof -
  define d where "d = ndigits 10 (nat m)"
  have d16: "0 < d" "d \<le> 16" using int_digits_le_16 [OF m] by (simp_all add: d_def)
  have n0: "floor_log 10 (of_int m) + 1 = int d"
    using m by (simp add: floor_log_int d_def)
  have "d - 1 < 17" using d16 by simp
  from shortest_int [OF m d_def, of 1 17] d16 this obtain k' where
    k': "1 \<le> k'" "k' \<le> d" "10 ^ (d - k') dvd m"
    "shortest (of_int m) (int d) 1 17 = (int d, k', nat (m div 10 ^ (d - k')))"
    by auto
  have k4: "shortest (of_int m) (int d) (Suc 0) 17 = (int d, k', nat (m div 10 ^ (d - k')))"
    using k'(4) by simp
  have sd: "shortest_digits (of_int m) = (int d, k', nat (m div 10 ^ (d - k')))"
    by (simp add: shortest_digits_def n0 k4)
  define s where "s = m div 10 ^ (d - k')"
  have ms: "m = s * 10 ^ (d - k')" using k'(3) by (simp add: s_def)
  have spos: "0 < s"
  proof (rule ccontr)
    assume "\<not> 0 < s"
    then have "s * 10 ^ (d - k') \<le> 0" by (simp add: mult_le_0_iff)
    with ms m show False by simp
  qed
  have "nat m = nat s * 10 ^ (d - k')"
    using spos by (subst ms) (simp add: nat_mult_distrib nat_power_eq)
  then have "show_nat (nat m) = show_nat (nat s) @ replicate (d - k') (CHR ''0'')"
    using spos by (simp add: show_nat_shift)
  moreover have "ToString_pos (of_int m) = show_nat (nat s) @ replicate (d - k') (CHR ''0'')"
    using k' d16 by (simp add: ToString_pos_def sd s_def nat_diff_distrib')
  ultimately show ?thesis by simp
qed

lemma ToString_int:
  assumes "0 \<le> (m::int)" "m \<le> 2 ^ 53"
  shows "ToString (Fin (of_int m)) = show_nat (nat m)"
proof (cases "m = 0")
  case True
  then show ?thesis by (simp add: ToString_def show_nat.simps digit_char_def)
next
  case False
  then have "0 < m" using assms by simp
  then show ?thesis using assms ToString_pos_int [of m] by (simp add: ToString_def)
qed

lemma number_add_1_int:
  assumes "0 \<le> (m::int)" "m < 2 ^ 53"
  shows "number_add (Fin (of_int m)) (Fin 1) = Fin (of_int (m + 1))"
proof -
  have "round_double (of_int (m + 1)) = Fin (of_int (m + 1))"
    using assms by (intro round_double_safe) simp_all
  then show ?thesis by (simp add: number_add_def)
qed

section \<open>Version strings\<close>


lemma dropWhile_hd: "xs = [] \<or> \<not> P (hd xs) \<Longrightarrow> dropWhile P xs = xs"
  by (cases xs) auto

lemma trim_id: "s \<noteq> [] \<Longrightarrow> \<not> isWhiteSpace (hd s) \<Longrightarrow> \<not> isWhiteSpace (last s) \<Longrightarrow> trim s = s"
proof -
  assume s: "s \<noteq> []" and h: "\<not> isWhiteSpace (hd s)" and l: "\<not> isWhiteSpace (last s)"
  have 1: "dropWhile isWhiteSpace s = s" using h by (intro dropWhile_hd) simp
  have "hd (rev s) = last s" using s by (simp add: hd_rev)
  then have 2: "dropWhile isWhiteSpace (rev s) = rev s" using l by (intro dropWhile_hd) simp
  show ?thesis by (simp add: trim_def 1 2)
qed

lemma digit_not_ws: "isDigit c \<Longrightarrow> \<not> isWhiteSpace c"
  by (auto simp: isDigit_def isWhiteSpace_def)

lemma digits_value_nonneg_aux: "0 \<le> acc \<Longrightarrow> list_all isDigit ds \<Longrightarrow> 0 \<le> foldl (\<lambda>a c. a * 10 + digit_of c) acc ds"
  by (induction ds arbitrary: acc) (auto simp: digit_of_def isDigit_def)

lemma digits_value_nonneg: "list_all isDigit ds \<Longrightarrow> 0 \<le> digits_value 10 ds"
  by (simp add: digits_value_def digits_value_nonneg_aux)

lemma StrUnsignedDecimalLiteral_digits:
  assumes "is_numeral ds"
  shows "StrUnsignedDecimalLiteral ds = Some (of_int (digits_value 10 ds))"
proof -
  have all: "\<forall>c\<in>set ds. isDigit c" using assms by (simp add: is_numeral_def list_all_iff)
  have tw: "takeWhile isDigit ds = ds" using all by (simp add: takeWhile_eq_all_conv)
  have dw: "dropWhile isDigit ds = []" using all by simp
  show ?thesis using assms
    by (simp add: StrUnsignedDecimalLiteral_def tw dw ExponentPart_opt_def pow_def digits_value_def is_numeral_def)
qed

lemma Number_numeral:
  assumes n: "is_numeral ds"
  shows "Number ds = round_double (of_int (digits_value 10 ds))"
proof -
  have ne: "ds \<noteq> []" and all: "\<forall>c\<in>set ds. isDigit c"
    using n by (simp_all add: is_numeral_def list_all_iff)
  have h: "isDigit (hd ds)" and l: "isDigit (last ds)" using ne all by simp_all
  have t: "trim ds = ds" using ne h l by (intro trim_id) (simp_all add: digit_not_ws)
  have sg: "hd ds \<noteq> CHR ''-''" "hd ds \<noteq> CHR ''+''" using h by (auto simp: isDigit_def code_def)
  have inf: "ds \<noteq> ''Infinity''" using h by (auto simp: isDigit_def code_def)
  show ?thesis
    using ne sg inf by (simp add: Number_def t StrDecimalLiteral_def StrUnsignedDecimalLiteral_digits [OF n])
qed

lemma Number_numeral_safe:
  "is_numeral ds \<Longrightarrow> digits_value 10 ds \<le> 2 ^ 53 \<Longrightarrow> Number ds = Fin (of_int (digits_value 10 ds))"
  by (simp add: Number_numeral round_double_safe digits_value_nonneg is_numeral_def)

lemma round_double_not_NaN: "round_double a \<noteq> NaN"
  by (simp add: round_double_def round_pos_def negate_def Let_def)

lemma split_str_no_sep: "sep \<notin> set a \<Longrightarrow> split_str sep a = [a]"
  by (induction a) auto

lemma split_str_append: "sep \<notin> set a \<Longrightarrow> split_str sep (a @ sep # r) = a # split_str sep r"
  by (induction a) auto

lemma numeral_no_dot: "is_numeral ds \<Longrightarrow> CHR ''.'' \<notin> set ds"
  by (auto simp: is_numeral_def list_all_iff isDigit_def code_def)

lemma split_version:
  assumes "is_numeral a" "is_numeral b" "is_numeral c"
  shows "split_str (CHR ''.'') (a @ ''.'' @ b @ ''.'' @ c) = [a, b, c]"
  using assms by (simp add: split_str_append split_str_no_sep numeral_no_dot)

lemma strip_v_v: "strip_v (''v'' @ s) = s"
  by (simp add: strip_v_def)

lemma strip_v_numeral: "is_numeral a \<Longrightarrow> strip_v (a @ s) = a @ s"
  by (cases a) (auto simp: strip_v_def is_numeral_def isDigit_def code_def)

lemma show_nat_hd_digit: "isDigit (hd (show_nat n)) \<and> show_nat n \<noteq> []"
proof (induction n rule: show_nat.induct)
  case (1 n)
  show ?case
  proof (cases "n < 10")
    case True
    then have "n \<in> {0,1,2,3,4,5,6,7,8,9}" by auto
    then show ?thesis by (subst (1 2) show_nat.simps) (auto simp: digit_char_def isDigit_def code_def)
  next
    case False
    with 1 show ?thesis by (subst (1 2) show_nat.simps) simp
  qed
qed

lemmas num_eval = isDigit_def digit_of_def digits_value_def is_numeral_def code_def

lemma parts_of_numerals:
  assumes n: "is_numeral a" "is_numeral b" "is_numeral c"
    and v: "digits_value 10 a \<le> 2 ^ 53" "digits_value 10 b \<le> 2 ^ 53" "digits_value 10 c \<le> 2 ^ 53"
    and p: "p = [] \<or> p = ''v''"
  shows "map Number (split_str (CHR ''.'') (strip_v (p @ a @ ''.'' @ b @ ''.'' @ c)))
           = [Fin (of_int (digits_value 10 a)), Fin (of_int (digits_value 10 b)),
              Fin (of_int (digits_value 10 c))]"
proof -
  have "strip_v (p @ a @ ''.'' @ b @ ''.'' @ c) = a @ ''.'' @ b @ ''.'' @ c"
    using p strip_v_v [of "a @ ''.'' @ b @ ''.'' @ c"] strip_v_numeral [OF n(1), of "''.'' @ b @ ''.'' @ c"]
    by auto
  then show ?thesis
    using n v by (simp only: split_version list.map Number_numeral_safe)
qed

text \<open>
  C5 (amended).  For a version string of three decimal numerals, each of value at most
  \<open>2^53 - 1\<close>, with or without a leading \<open>v\<close>: \<open>major\<close> increments the first number
  and zeroes the other two, \<open>minor\<close> increments the second and zeroes the third,
  \<open>patch\<close> increments the third; the numbers are written by \<open>show_nat\<close>, and the
  result of any bump type begins with a digit, never with \<open>v\<close>.
\<close>

theorem calcNextVersion_safe:
  assumes n: "is_numeral a" "is_numeral b" "is_numeral c"
    and v: "digits_value 10 a < 2 ^ 53" "digits_value 10 b < 2 ^ 53" "digits_value 10 c < 2 ^ 53"
    and p: "p = [] \<or> p = ''v''"
  shows "calcNextVersion (p @ a @ ''.'' @ b @ ''.'' @ c) ''major''
           = Inr (show_nat (nat (digits_value 10 a + 1)) @ ''.0.0'') \<and>
         calcNextVersion (p @ a @ ''.'' @ b @ ''.'' @ c) ''minor''
           = Inr (show_nat (nat (digits_value 10 a)) @ ''.''
                    @ show_nat (nat (digits_value 10 b + 1)) @ ''.0'') \<and>
         calcNextVersion (p @ a @ ''.'' @ b @ ''.'' @ c) ''patch''
           = Inr (show_nat (nat (digits_value 10 a)) @ ''.''
                    @ show_nat (nat (digits_value 10 b)) @ ''.''
                    @ show_nat (nat (digits_value 10 c + 1))) \<and>
         (\<forall>k out. calcNextVersion (p @ a @ ''.'' @ b @ ''.'' @ c) k = Inr out \<longrightarrow>
            out \<noteq> [] \<and> isDigit (hd out) \<and> hd out \<noteq> CHR ''v'')"
proof -
  let ?A = "digits_value 10 a" and ?B = "digits_value 10 b" and ?C = "digits_value 10 c"
  have nn: "0 \<le> ?A" "0 \<le> ?B" "0 \<le> ?C"
    using n by (simp_all add: is_numeral_def digits_value_nonneg)
  have le: "?A \<le> 2 ^ 53" "?B \<le> 2 ^ 53" "?C \<le> 2 ^ 53" using v by simp_all
  note parts = parts_of_numerals [OF n le p]
  have add: "number_add (Fin (of_int ?A)) (Fin 1) = Fin (of_int (?A + 1))"
    "number_add (Fin (of_int ?B)) (Fin 1) = Fin (of_int (?B + 1))"
    "number_add (Fin (of_int ?C)) (Fin 1) = Fin (of_int (?C + 1))"
    using nn v by (simp_all only: number_add_1_int)
  have ts: "ToString (Fin (of_int ?A)) = show_nat (nat ?A)"
    "ToString (Fin (of_int ?B)) = show_nat (nat ?B)"
    "ToString (Fin (of_int ?C)) = show_nat (nat ?C)"
    "ToString (Fin (of_int (?A + 1))) = show_nat (nat (?A + 1))"
    "ToString (Fin (of_int (?B + 1))) = show_nat (nat (?B + 1))"
    "ToString (Fin (of_int (?C + 1))) = show_nat (nat (?C + 1))"
    using nn v by (simp_all only: ToString_int add_increasing2 zero_le_one zless_imp_add1_zle order.strict_implies_order)
  have z: "ToString (Fin 0) = ''0''" by (simp add: ToString_def)
  have nan: "\<not> isNaN (Fin x)" for x by (simp add: isNaN_def)
  have hd: "out \<noteq> [] \<and> isDigit (hd out) \<and> hd out \<noteq> CHR ''v''"
    if "out = show_nat n @ r" for out n r
  proof -
    have "show_nat n \<noteq> []" "isDigit (hd (show_nat n))" using show_nat_hd_digit [of n] by simp_all
    then have "out \<noteq> []" "isDigit (hd out)" using that by simp_all
    moreover have "\<not> isDigit (CHR ''v'')" by (simp add: isDigit_def code_def)
    ultimately show ?thesis by auto
  qed
  have out: "\<exists>n r. out = show_nat n @ r"
    if "calcNextVersion (p @ a @ ''.'' @ b @ ''.'' @ c) k = Inr out" for k out
    using that unfolding calcNextVersion_def Let_def parts
    by (auto simp: nan apply_bump_def add ts z simp del: of_int_add split: if_splits)
  have eqs: "calcNextVersion (p @ a @ ''.'' @ b @ ''.'' @ c) ''major''
           = Inr (show_nat (nat (digits_value 10 a + 1)) @ ''.0.0'') \<and>
         calcNextVersion (p @ a @ ''.'' @ b @ ''.'' @ c) ''minor''
           = Inr (show_nat (nat (digits_value 10 a)) @ ''.''
                    @ show_nat (nat (digits_value 10 b + 1)) @ ''.0'') \<and>
         calcNextVersion (p @ a @ ''.'' @ b @ ''.'' @ c) ''patch''
           = Inr (show_nat (nat (digits_value 10 a)) @ ''.''
                    @ show_nat (nat (digits_value 10 b)) @ ''.''
                    @ show_nat (nat (digits_value 10 c + 1)))"
    unfolding calcNextVersion_def Let_def parts
    by (simp add: nan apply_bump_def add ts z del: of_int_add)
  show ?thesis using eqs out hd by blast
qed

text \<open>The examples of the specification: 1.2.3 and v1.2.3.\<close>

theorem calcNextVersion_safe_witness:
  "is_numeral ''1'' \<and> is_numeral ''2'' \<and> is_numeral ''3'' \<and>
   digits_value 10 ''1'' < 2 ^ 53 \<and> digits_value 10 ''2'' < 2 ^ 53 \<and> digits_value 10 ''3'' < 2 ^ 53 \<and>
   calcNextVersion ''1.2.3'' ''patch'' = Inr ''1.2.4'' \<and>
   calcNextVersion ''1.2.3'' ''minor'' = Inr ''1.3.0'' \<and>
   calcNextVersion ''1.2.3'' ''major'' = Inr ''2.0.0'' \<and>
   calcNextVersion ''v1.2.3'' ''patch'' = Inr ''1.2.4''"
proof -
  have n: "is_numeral ''1''" "is_numeral ''2''" "is_numeral ''3''" by (simp_all add: num_eval)
  have v: "digits_value 10 ''1'' < 2 ^ 53" "digits_value 10 ''2'' < 2 ^ 53"
    "digits_value 10 ''3'' < 2 ^ 53" by (simp_all add: num_eval)
  have s: "show_nat (Suc 0) = ''1''" "show_nat 2 = ''2''" "show_nat 3 = ''3''" "show_nat 4 = ''4''"
    by (simp_all add: show_nat.simps digit_char_def)
  show ?thesis
    using calcNextVersion_safe [OF n v, of "[]"] calcNextVersion_safe [OF n v, of "''v''"] n v
    by (simp add: num_eval s)
qed

lemma round_double_2_53_plus_1: "round_double 9007199254740993 = Fin 9007199254740992"
proof -
  have "ndigits 2 9007199254740993 = Suc 53" by (rule ndigits_unique) simp_all
  then have fl: "floor_log 2 9007199254740993 = 53" by (simp add: floor_log_def)
  have f: "\<lfloor>(9007199254740993::rat) / 2\<rfloor> = 4503599627370496"
    using floor_divide_of_int_eq [of 9007199254740993 2, where ?'a = rat] by simp
  have "round_half_even (9007199254740993 / 2) = 4503599627370496"
    by (simp add: round_half_even_def f Let_def)
  then have "round_pos 9007199254740993 = Fin 9007199254740992"
    by (simp add: round_pos_def Let_def pow_def fl)
  then show ?thesis by (simp add: round_double_def)
qed

text \<open>
  C5 as stated fails from \<open>2^53\<close> on: \<open>2^53 + 1\<close> is not a double and the sum rounds
  back to \<open>2^53\<close>, so the patch number of \<open>1.2.9007199254740992\<close> is not incremented.
\<close>

theorem calcNextVersion_precision_counterexample:
  "is_numeral ''1'' \<and> is_numeral ''2'' \<and> is_numeral ''9007199254740992'' \<and>
   calcNextVersion ''1.2.9007199254740992'' ''patch'' = Inr ''1.2.9007199254740992''"
proof -
  have n: "is_numeral ''1''" "is_numeral ''2''" "is_numeral ''9007199254740992''"
    by (simp_all add: num_eval)
  have dv: "digits_value 10 ''1'' = 1" "digits_value 10 ''2'' = 2"
    "digits_value 10 ''9007199254740992'' = 2 ^ 53" by (simp_all add: num_eval)
  have parts: "map Number (split_str (CHR ''.'') (strip_v ([] @ ''1'' @ ''.'' @ ''2'' @ ''.'' @ ''9007199254740992'')))
      = [Fin (of_int 1), Fin (of_int 2), Fin (of_int (2 ^ 53))]"
    using parts_of_numerals [OF n, of "[]"] by (simp add: dv)
  have add: "number_add (Fin 9007199254740992) (Fin 1) = Fin 9007199254740992"
    using round_double_2_53_plus_1 by (simp add: number_add_def)
  have ts: "ToString (Fin 1) = ''1''" "ToString (Fin 2) = ''2''"
    "ToString (Fin 9007199254740992) = ''9007199254740992''"
    using ToString_int [of 1] ToString_int [of 2] ToString_int [of "2 ^ 53"]
    by (simp_all add: show_nat.simps digit_char_def)
  have nan: "\<not> isNaN (Fin x)" for x by (simp add: isNaN_def)
  have "calcNextVersion ''1.2.9007199254740992'' ''patch'' = Inr ''1.2.9007199254740992''"
    using parts unfolding calcNextVersion_def Let_def
    by (simp add: nan apply_bump_def add ts)
  then show ?thesis using n by simp
qed

text \<open>
  C3.  \<open>1.2\<close> and \<open>1.2.x\<close> are refused.  \<open>1..3\<close> is not three integers, and it is
  accepted: its middle piece is the empty string, which \<open>Number\<close> converts to 0, and
  the result is \<open>1.0.4\<close>.
\<close>

theorem calcNextVersion_lax_examples:
  "calcNextVersion ''1.2'' ''patch'' = Inl (Error (''Invalid semver: '' @ [CHR 0x22] @ ''1.2'' @ [CHR 0x22])) \<and>
   calcNextVersion ''1.2.x'' ''patch'' = Inl (Error (''Invalid semver: '' @ [CHR 0x22] @ ''1.2.x'' @ [CHR 0x22])) \<and>
   split_str (CHR ''.'') ''1..3'' = [''1'', [], ''3''] \<and>
   calcNextVersion ''1..3'' ''patch'' = Inr ''1.0.4''"
proof -
  have n: "Number ''1'' = Fin 1" "Number ''2'' = Fin 2" "Number ''3'' = Fin 3"
    using Number_numeral_safe [of "''1''"] Number_numeral_safe [of "''2''"] Number_numeral_safe [of "''3''"]
    by (simp_all add: num_eval)
  have e: "Number [] = Fin 0" by (simp add: Number_def trim_def)
  have x: "Number ''x'' = NaN"
    by (simp add: Number_def str_defs StrDecimalLiteral_def StrUnsignedDecimalLiteral_def
        NonDecimalIntegerLiteral_def isDigit_def)
  have add: "number_add (Fin 3) (Fin 1) = Fin 4" using number_add_1_int [of 3] by simp
  have ts: "ToString (Fin 1) = ''1''" "ToString (Fin 0) = ''0''" "ToString (Fin 4) = ''4''"
    using ToString_int [of 1] ToString_int [of 0] ToString_int [of 4]
    by (simp_all add: show_nat.simps digit_char_def)
  show ?thesis
    by (simp add: calcNextVersion_def Let_def strip_v_def apply_bump_def isNaN_def n e x add ts)
qed

text \<open>The accepted input, on its own.\<close>

theorem calcNextVersion_lax_examples_witness:
  "length (map Number (split_str (CHR ''.'') (strip_v ''1..3''))) = 3 \<and>
   Number [] = Fin 0 \<and>
   calcNextVersion ''1..3'' ''patch'' = Inr ''1.0.4''"
  using calcNextVersion_lax_examples by (simp add: strip_v_def Number_def trim_def)

section \<open>The bump policy\<close>

lemma calc_1_2_3_patch: "calcNextVersion ''1.2.3'' ''patch'' = Inr ''1.2.4''"
proof -
  have n: "is_numeral ''1''" "is_numeral ''2''" "is_numeral ''3''" by (simp_all add: num_eval)
  have dv: "digits_value 10 ''1'' = 1" "digits_value 10 ''2'' = 2" "digits_value 10 ''3'' = 3"
    by (simp_all add: num_eval)
  have parts: "map Number (split_str (CHR ''.'') (strip_v ([] @ ''1'' @ ''.'' @ ''2'' @ ''.'' @ ''3'')))
      = [Fin (of_int 1), Fin (of_int 2), Fin (of_int 3)]"
    using parts_of_numerals [OF n, of "[]"] by (simp add: dv)
  have add: "number_add (Fin 3) (Fin 1) = Fin 4" using number_add_1_int [of 3] by simp
  have ts: "ToString (Fin 1) = ''1''" "ToString (Fin 2) = ''2''" "ToString (Fin 4) = ''4''"
    using ToString_int [of 1] ToString_int [of 2] ToString_int [of 4]
    by (simp_all add: show_nat.simps digit_char_def)
  show ?thesis
    using parts unfolding calcNextVersion_def Let_def
    by (simp add: isNaN_def apply_bump_def add ts)
qed

text \<open>
  C2.  \<open>determineBumpType\<close> is \<open>major\<close> when some commit is breaking, else \<open>minor\<close>
  when some commit has type \<open>feat\<close>, else \<open>patch\<close>, as for no commits at all.  With a
  non-empty \<open>force\<close>, \<open>bump\<close> computes the next version from \<open>force\<close> and returns it
  as the bump type: the right-hand side below does not mention \<open>determineBumpType\<close>.
\<close>

theorem bump_type_policy:
  "determineBumpType cs =
     (if (\<exists>c\<in>set cs. breaking c) then ''major''
      else if (\<exists>c\<in>set cs. type c = ''feat'') then ''minor''
      else ''patch'') \<and>
   determineBumpType [] = ''patch'' \<and>
   (f \<noteq> [] \<longrightarrow>
      bump w dry (Some f) =
        (case readCurrentVersion w of
           Inl e \<Rightarrow> Inl e
         | Inr cur \<Rightarrow>
             (case calcNextVersion cur f of
                Inl e \<Rightarrow> Inl e
              | Inr n \<Rightarrow>
                  Inr (\<lparr>current = cur, next_version = n, bumpType = f,
                         commits = parseCommits (raw_commits w)\<rparr>,
                       if dry then w else writeVersion n w)))) \<and>
   (\<forall>res w'. f \<noteq> [] \<and> bump w dry (Some f) = Inr (res, w') \<longrightarrow> bumpType res = f)"
proof (intro conjI impI allI)
  show "determineBumpType cs =
     (if (\<exists>c\<in>set cs. breaking c) then ''major''
      else if (\<exists>c\<in>set cs. type c = ''feat'') then ''minor''
      else ''patch'')"
    by (force simp: determineBumpType_def hasBreakingChanges_def list_ex_iff image_iff)
  show "determineBumpType [] = ''patch''"
    by (simp add: determineBumpType_def hasBreakingChanges_def)
  show eq: "bump w dry (Some f) =
        (case readCurrentVersion w of
           Inl e \<Rightarrow> Inl e
         | Inr cur \<Rightarrow>
             (case calcNextVersion cur f of
                Inl e \<Rightarrow> Inl e
              | Inr n \<Rightarrow>
                  Inr (\<lparr>current = cur, next_version = n, bumpType = f,
                         commits = parseCommits (raw_commits w)\<rparr>,
                       if dry then w else writeVersion n w)))" if "f \<noteq> []"
    using that by (simp add: bump_def Let_def split: sum.splits)
  show "bumpType res = f" if "f \<noteq> [] \<and> bump w dry (Some f) = Inr (res, w')" for res w'
    using that by (auto simp: bump_def Let_def split: sum.splits)
qed

text \<open>A breaking commit, for which the policy says \<open>major\<close>, and \<open>force = patch\<close>.\<close>

theorem bump_type_policy_witness:
  "parseCommits [''abc1234'' @ [CHR 0x00] @ ''feat!: drop legacy API'']
     = [\<lparr>hash = ''abc1234'', type = ''feat'', scope = None, description = ''drop legacy API'',
          body = [], breaking = True, raw = ''feat!: drop legacy API''\<rparr>] \<and>
   determineBumpType (parseCommits [''abc1234'' @ [CHR 0x00] @ ''feat!: drop legacy API'']) = ''major'' \<and>
   bump \<lparr>raw_commits = [''abc1234'' @ [CHR 0x00] @ ''feat!: drop legacy API''],
         package_version = Some ''1.2.3''\<rparr> False (Some ''patch'')
     = Inr (\<lparr>current = ''1.2.3'', next_version = ''1.2.4'', bumpType = ''patch'',
             commits = parseCommits [''abc1234'' @ [CHR 0x00] @ ''feat!: drop legacy API'']\<rparr>,
            \<lparr>raw_commits = [''abc1234'' @ [CHR 0x00] @ ''feat!: drop legacy API''],
              package_version = Some ''1.2.4''\<rparr>)"
proof -
  let ?raw = "''abc1234'' @ [CHR 0x00] @ ''feat!: drop legacy API''"
  let ?w = "\<lparr>raw_commits = [?raw], package_version = Some ''1.2.3''\<rparr>"
  have pc: "parseCommits [?raw]
     = [\<lparr>hash = ''abc1234'', type = ''feat'', scope = None, description = ''drop legacy API'',
          body = [], breaking = True, raw = ''feat!: drop legacy API''\<rparr>]"
    by (simp add: str_defs parser_defs)
  have rd: "readCurrentVersion ?w = Inr ''1.2.3''" by (simp add: readCurrentVersion_def)
  from bump_type_policy [of "parseCommits [?raw]" "''patch''" ?w False]
  show ?thesis
    by (simp add: pc [simplified] rd [simplified] calc_1_2_3_patch writeVersion_def)
qed

section \<open>The tagger\<close>

lemmas tag_defs = tag_name_def tagExists_def git_tag_a_def createTag_def Let_def

text \<open>
  C8 (amended).  The tag is the version itself when the version starts with \<open>v\<close>, and
  \<open>v\<close> followed by the version otherwise.  The only thing assumed of \<open>git\<close> is that
  \<open>git rev-parse --verify refs/tags/t\<close> succeeds for every tag \<open>t\<close> of the repository.
  Then:
  when the tag exists, \<open>createTag\<close> raises the error \<open>already exists\<close>, having run the
  check only;
  when the check fails, \<open>createTag\<close> under dry-run returns the tag, having run the check
  only; otherwise it runs \<open>git tag -a\<close>, and returns the tag, now created, if that
  succeeds, and raises the failure, with no tag created, if it does not;
  in every case the check is the first command run, and under dry-run the repository
  is left as it was, the check apart.
\<close>

theorem createTag_checks_first:
  assumes found: "\<forall>t\<in>fst ` set (tags r). rev_parse_verify g r (''refs/tags/'' @ t)"
  shows
  "(tag_name v \<in> fst ` set (tags r) \<longrightarrow>
      createTag g r v msg dry =
        (Inl (Error (''Tag '' @ [CHR 0x22] @ tag_name v @ [CHR 0x22]
                       @ '' already exists. Delete it first or bump the version.'')),
         r\<lparr>calls := calls r @ [[''git'', ''rev-parse'', ''--verify'', ''refs/tags/'' @ tag_name v]]\<rparr>)) \<and>
   (\<not> rev_parse_verify g r (''refs/tags/'' @ tag_name v) \<longrightarrow>
      createTag g r v msg dry =
        (if dry
         then (Inr (tag_name v),
               r\<lparr>calls := calls r @ [[''git'', ''rev-parse'', ''--verify'', ''refs/tags/'' @ tag_name v]]\<rparr>)
         else if tag_a g (r\<lparr>calls := calls r @ [[''git'', ''rev-parse'', ''--verify'', ''refs/tags/'' @ tag_name v]]\<rparr>)
                   (tag_name v) msg
         then (Inr (tag_name v),
               r\<lparr>calls := calls r @ [[''git'', ''rev-parse'', ''--verify'', ''refs/tags/'' @ tag_name v],
                                      [''git'', ''tag'', ''-a'', tag_name v, ''-m'', msg]],
                 tags := tags r @ [(tag_name v, msg)]\<rparr>)
         else (Inl (Error ''Command failed: git tag -a''),
               r\<lparr>calls := calls r @ [[''git'', ''rev-parse'', ''--verify'', ''refs/tags/'' @ tag_name v],
                                      [''git'', ''tag'', ''-a'', tag_name v, ''-m'', msg]]\<rparr>))) \<and>
   take (Suc (length (calls r))) (calls (snd (createTag g r v msg dry)))
     = calls r @ [[''git'', ''rev-parse'', ''--verify'', ''refs/tags/'' @ tag_name v]] \<and>
   (dry \<longrightarrow>
      snd (createTag g r v msg dry)
        = r\<lparr>calls := calls r @ [[''git'', ''rev-parse'', ''--verify'', ''refs/tags/'' @ tag_name v]]\<rparr>) \<and>
   hd (tag_name v) = CHR ''v'' \<and>
   (v = [] \<or> hd v \<noteq> CHR ''v'' \<longrightarrow> tag_name v = ''v'' @ v)"
proof (intro conjI impI)
  let ?check = "[''git'', ''rev-parse'', ''--verify'', ''refs/tags/'' @ tag_name v]"
  show "createTag g r v msg dry =
        (Inl (Error (''Tag '' @ [CHR 0x22] @ tag_name v @ [CHR 0x22]
                       @ '' already exists. Delete it first or bump the version.'')),
         r\<lparr>calls := calls r @ [?check]\<rparr>)" if "tag_name v \<in> fst ` set (tags r)"
  proof -
    have "rev_parse_verify g r (''refs/tags/'' @ tag_name v)" using found that by blast
    then show ?thesis by (simp add: createTag_def tagExists_def Let_def)
  qed
  show "createTag g r v msg dry =
        (if dry
         then (Inr (tag_name v), r\<lparr>calls := calls r @ [?check]\<rparr>)
         else if tag_a g (r\<lparr>calls := calls r @ [?check]\<rparr>) (tag_name v) msg
         then (Inr (tag_name v),
               r\<lparr>calls := calls r @ [?check, [''git'', ''tag'', ''-a'', tag_name v, ''-m'', msg]],
                 tags := tags r @ [(tag_name v, msg)]\<rparr>)
         else (Inl (Error ''Command failed: git tag -a''),
               r\<lparr>calls := calls r @ [?check, [''git'', ''tag'', ''-a'', tag_name v, ''-m'', msg]]\<rparr>))"
    if "\<not> rev_parse_verify g r (''refs/tags/'' @ tag_name v)"
    using that by (simp add: createTag_def tagExists_def git_tag_a_def Let_def)
  show "take (Suc (length (calls r))) (calls (snd (createTag g r v msg dry))) = calls r @ [?check]"
    by (simp add: createTag_def tagExists_def git_tag_a_def Let_def)
  show "snd (createTag g r v msg dry) = r\<lparr>calls := calls r @ [?check]\<rparr>" if dry
    using that by (simp add: createTag_def tagExists_def Let_def)
  show "hd (tag_name v) = CHR ''v''" by (simp add: tag_name_def)
  show "tag_name v = ''v'' @ v" if "v = [] \<or> hd v \<noteq> CHR ''v''"
    using that by (auto simp: tag_name_def)
qed

text \<open>
  Version \<open>1.2.4\<close>: under dry-run in a repository that has the tag \<open>v1.2.4\<close>; under
  dry-run in a repository that has the tag \<open>v1.2.3\<close> only; and for real in the latter.
  The answers of \<open>git\<close> are the ones it gives in these repositories.
\<close>

theorem createTag_checks_first_witness:
  "createTag \<lparr>rev_parse_verify = (\<lambda>r rev. rev = ''refs/tags/v1.2.4''), tag_a = (\<lambda>r t m. False)\<rparr>
             \<lparr>tags = [(''v1.2.4'', ''old'')], calls = []\<rparr> ''1.2.4'' ''Release v1.2.4'' True
     = (Inl (Error (''Tag '' @ [CHR 0x22] @ ''v1.2.4'' @ [CHR 0x22]
                      @ '' already exists. Delete it first or bump the version.'')),
        \<lparr>tags = [(''v1.2.4'', ''old'')],
         calls = [[''git'', ''rev-parse'', ''--verify'', ''refs/tags/v1.2.4'']]\<rparr>) \<and>
   createTag \<lparr>rev_parse_verify = (\<lambda>r rev. rev = ''refs/tags/v1.2.3''), tag_a = (\<lambda>r t m. t \<noteq> ''v1.2.3'')\<rparr>
             \<lparr>tags = [(''v1.2.3'', ''old'')], calls = []\<rparr> ''1.2.4'' ''Release v1.2.4'' True
     = (Inr ''v1.2.4'',
        \<lparr>tags = [(''v1.2.3'', ''old'')],
         calls = [[''git'', ''rev-parse'', ''--verify'', ''refs/tags/v1.2.4'']]\<rparr>) \<and>
   createTag \<lparr>rev_parse_verify = (\<lambda>r rev. rev = ''refs/tags/v1.2.3''), tag_a = (\<lambda>r t m. t \<noteq> ''v1.2.3'')\<rparr>
             \<lparr>tags = [(''v1.2.3'', ''old'')], calls = []\<rparr> ''1.2.4'' ''Release v1.2.4'' False
     = (Inr ''v1.2.4'',
        \<lparr>tags = [(''v1.2.3'', ''old''), (''v1.2.4'', ''Release v1.2.4'')],
         calls = [[''git'', ''rev-parse'', ''--verify'', ''refs/tags/v1.2.4''],
                  [''git'', ''tag'', ''-a'', ''v1.2.4'', ''-m'', ''Release v1.2.4'']]\<rparr>)"
  using createTag_checks_first
          [of "\<lparr>tags = [(''v1.2.4'', ''old'')], calls = []\<rparr>"
              "\<lparr>rev_parse_verify = (\<lambda>r rev. rev = ''refs/tags/v1.2.4''), tag_a = (\<lambda>r t m. False)\<rparr>"
              "''1.2.4''" "''Release v1.2.4''" True]
        createTag_checks_first
          [of "\<lparr>tags = [(''v1.2.3'', ''old'')], calls = []\<rparr>"
              "\<lparr>rev_parse_verify = (\<lambda>r rev. rev = ''refs/tags/v1.2.3''), tag_a = (\<lambda>r t m. t \<noteq> ''v1.2.3'')\<rparr>"
              "''1.2.4''" "''Release v1.2.4''" True]
        createTag_checks_first
          [of "\<lparr>tags = [(''v1.2.3'', ''old'')], calls = []\<rparr>"
              "\<lparr>rev_parse_verify = (\<lambda>r rev. rev = ''refs/tags/v1.2.3''), tag_a = (\<lambda>r t m. t \<noteq> ''v1.2.3'')\<rparr>"
              "''1.2.4''" "''Release v1.2.4''" False]
  by (simp add: tag_name_def)

text \<open>
  C8 as stated fails, in three ways.
  For the version \<open>v1.2.4\<close> in a repository with the tag \<open>vv1.2.4\<close>, the tag named
  \<open>v\<close> followed by the version exists, and \<open>createTag\<close> creates and returns \<open>v1.2.4\<close>.
  For the version \<open>1 2\<close> no tag \<open>v1 2\<close> exists, \<open>git tag -a\<close> refuses the name, which has
  a space, and \<open>createTag\<close> raises that failure instead of returning the name.
  For the version \<open>1.0.0^0\<close> in a repository with the tag \<open>v1.0.0\<close>, no tag
  \<open>v1.0.0^0\<close> exists, but \<open>git rev-parse --verify refs/tags/v1.0.0^0\<close> succeeds (it is
  the commit of \<open>v1.0.0\<close>), and \<open>createTag\<close> raises \<open>already exists\<close>.
\<close>

theorem createTag_counterexample:
  "createTag \<lparr>rev_parse_verify = (\<lambda>r rev. rev = ''refs/tags/vv1.2.4''), tag_a = (\<lambda>r t m. t \<noteq> ''vv1.2.4'')\<rparr>
             \<lparr>tags = [(''vv1.2.4'', ''old'')], calls = []\<rparr> ''v1.2.4'' ''Release'' False
     = (Inr ''v1.2.4'',
        \<lparr>tags = [(''vv1.2.4'', ''old''), (''v1.2.4'', ''Release'')],
         calls = [[''git'', ''rev-parse'', ''--verify'', ''refs/tags/v1.2.4''],
                  [''git'', ''tag'', ''-a'', ''v1.2.4'', ''-m'', ''Release'']]\<rparr>) \<and>
   ''v'' @ ''v1.2.4'' \<in> fst ` set [(''vv1.2.4'', ''old'')] \<and>
   createTag \<lparr>rev_parse_verify = (\<lambda>r rev. False), tag_a = (\<lambda>r t m. CHR '' '' \<notin> set t)\<rparr>
             \<lparr>tags = [], calls = []\<rparr> ''1 2'' ''Release'' False
     = (Inl (Error ''Command failed: git tag -a''),
        \<lparr>tags = [],
         calls = [[''git'', ''rev-parse'', ''--verify'', ''refs/tags/v1 2''],
                  [''git'', ''tag'', ''-a'', ''v1 2'', ''-m'', ''Release'']]\<rparr>) \<and>
   createTag \<lparr>rev_parse_verify = (\<lambda>r rev. rev = ''refs/tags/v1.0.0'' \<or> rev = ''refs/tags/v1.0.0^0''),
              tag_a = (\<lambda>r t m. False)\<rparr>
             \<lparr>tags = [(''v1.0.0'', ''old'')], calls = []\<rparr> ''1.0.0^0'' ''Release'' False
     = (Inl (Error (''Tag '' @ [CHR 0x22] @ ''v1.0.0^0'' @ [CHR 0x22]
                      @ '' already exists. Delete it first or bump the version.'')),
        \<lparr>tags = [(''v1.0.0'', ''old'')],
         calls = [[''git'', ''rev-parse'', ''--verify'', ''refs/tags/v1.0.0^0'']]\<rparr>) \<and>
   ''v'' @ ''1.0.0^0'' \<notin> fst ` set [(''v1.0.0'', ''old'')]"
  by (simp add: tag_defs)

section \<open>The changelog\<close>

text \<open>The year found by \<open>YearFromDay\<close> is the one the standard specifies: the largest
  year that starts on or before the day.\<close>

lemma div_lower: "0 < (k::int) \<Longrightarrow> k * (a div k) \<le> a"
  by (metis div_mult_mod_eq add.commute le_add_same_cancel2 mult.commute pos_mod_sign)

lemma div_upper: "0 < (k::int) \<Longrightarrow> a < k * (a div k) + k"
proof -
  assume k: "0 < k"
  have "a = k * (a div k) + a mod k" by simp
  moreover have "a mod k < k" using k by simp
  ultimately show ?thesis by linarith
qed

lemma leap_days_lower:
  fixes y a b c :: int
  assumes "y - 1969 < 4 * a + 4" and "100 * b \<le> y - 1901" and "y - 1601 < 400 * c + 400"
  shows "146097 * (y - 1970) - 506 \<le> 400 * (365 * (y - 1970) + a - b + c)"
  using assms by (simp add: algebra_simps)

lemma leap_days_upper:
  fixes y a b c :: int
  assumes "4 * a \<le> y - 1969" and "y - 1901 < 100 * b + 100" and "400 * c \<le> y - 1601"
  shows "400 * (365 * (y - 1970) + a - b + c) \<le> 146097 * (y - 1970) + 589"
  using assms by (simp add: algebra_simps)

lemma DayFromYear_lower: "146097 * (y - 1970) - 506 \<le> 400 * DayFromYear y"
  unfolding DayFromYear_def
  by (rule leap_days_lower) (simp_all add: div_lower div_upper)

lemma DayFromYear_upper: "400 * DayFromYear y \<le> 146097 * (y - 1970) + 589"
  unfolding DayFromYear_def
  by (rule leap_days_upper) (simp_all add: div_lower div_upper)

lemma YearFromDay_spec:
  "DayFromYear (YearFromDay d) \<le> d \<and> d < DayFromYear (YearFromDay d + 1)"
proof -
  define e where "e = (400 * d) div 146097"
  have e1: "146097 * e \<le> 400 * d" unfolding e_def by (simp add: div_lower)
  have e2: "400 * d < 146097 * e + 146097" unfolding e_def by (simp add: div_upper)
  have lo: "DayFromYear (1970 + e - 1) \<le> d"
    using e1 DayFromYear_upper [of "1970 + e - 1"] by (simp add: algebra_simps)
  have hi: "d < DayFromYear (1970 + e + 2)"
    using e2 DayFromYear_lower [of "1970 + e + 2"] by (simp add: algebra_simps)
  have y1: "1970 + e + 1 + 1 = 1970 + e + 2" "1970 + e - 1 + 1 = 1970 + e" by simp_all
  show ?thesis
    unfolding YearFromDay_def Let_def e_def [symmetric]
    using lo hi by (auto simp: y1)
qed

lemma length_pad: "w \<le> length (pad w n)"
  by (simp add: pad_def)

lemma length_iso_date: "10 \<le> length (iso_date d)"
proof -
  have y: "4 \<le> length (iso_year y)" for y
    using length_pad [of 4] length_pad [of 6 "nat \<bar>y\<bar>"] by (auto simp: iso_year_def intro: order_trans)
  obtain m dt where md: "MonthDateFromDay d = (m, dt)" by (cases "MonthDateFromDay d")
  show ?thesis
    using y [of "YearFromDay d"] length_pad [of 2 "nat (m + 1)"] length_pad [of 2 "nat dt"]
    by (simp add: iso_date_def md)
qed

lemma date_of_day: "take 10 (toISOString t) = take 10 (iso_date (Day t))"
  using length_iso_date [of "Day t"] by (simp add: toISOString_def)

text \<open>
  C9 (amended).  Two calls of \<open>generateChangelog\<close> with the same arguments, at two times
  of the same UTC day (the day of \<open>toISOString\<close>), return the same string.
\<close>

theorem generateChangelog_same_day:
  assumes "Day t1 = Day t2"
  shows "generateChangelog t1 version cs lastTag = generateChangelog t2 version cs lastTag"
  using assms by (simp add: generateChangelog_def changelog_lines_def date_of_day)

text \<open>The first and the last millisecond of 27 February 2026.\<close>

theorem generateChangelog_same_day_witness:
  "Day 1772150400000 = Day 1772236799999 \<and>
   (1772150400000::int) \<noteq> 1772236799999 \<and>
   generateChangelog 1772150400000 ''1.2.4'' [] None
     = generateChangelog 1772236799999 ''1.2.4'' [] None"
proof -
  have d: "Day 1772150400000 = Day 1772236799999" by (simp add: Day_def msPerDay_def)
  from generateChangelog_same_day [OF d] d show ?thesis by simp
qed

lemma collect_groups_snoc:
  "collect_groups (cs @ [c]) = groups_push (group_key c) c (collect_groups cs)"
  by (simp add: collect_groups_def)

lemma map_fst_groups_push:
  "map fst (groups_push k c g) = (if k \<in> fst ` set g then map fst g else map fst g @ [k])"
  by (induction g) (force simp: image_iff)+

lemma map_of_groups_push:
  "map_of (groups_push k c g) =
     (map_of g)(k \<mapsto> (case map_of g k of None \<Rightarrow> [c] | Some ys \<Rightarrow> ys @ [c]))"
  by (induction g) (auto simp: fun_eq_iff)

lemma mset_groups_push:
  "mset (concat (map snd (groups_push k c g))) = mset (concat (map snd g)) + {#c#}"
  by (induction g) auto

lemma collect_groups_distinct: "distinct (map fst (collect_groups cs))"
proof (induction cs rule: rev_induct)
  case Nil
  show ?case by (simp add: collect_groups_def)
next
  case (snoc c cs)
  then show ?case by (simp add: collect_groups_snoc map_fst_groups_push)
qed

lemma collect_groups_map_of:
  "map_of (collect_groups cs) k =
     (if k \<in> group_key ` set cs then Some (filter (\<lambda>c. group_key c = k) cs) else None)"
proof (induction cs rule: rev_induct)
  case Nil
  show ?case by (simp add: collect_groups_def)
next
  case (snoc c cs)
  have e: "filter (\<lambda>x. group_key x = group_key c) cs = []" if "group_key c \<notin> group_key ` set cs"
    using that by (force simp: filter_empty_conv image_iff)
  from snoc show ?case
    by (auto simp: collect_groups_snoc map_of_groups_push e)
qed

lemma collect_groups_mset: "mset (concat (map snd (collect_groups cs))) = mset cs"
  by (induction cs rule: rev_induct) (simp_all add: collect_groups_def mset_groups_push)

text \<open>A type that is not an inherited property name has the group of its registry entry,
  or \<open>other\<close> when it has none.\<close>

lemma group_key_registry:
  "group_key c = (if type c \<in> fst ` set COMMIT_TYPES then type c else ''other'')"
  if "type c \<notin> set Object_prototype_keys"
proof (cases "map_of COMMIT_TYPES (type c)")
  case None
  then have "type c \<notin> fst ` set COMMIT_TYPES" by (simp add: map_of_eq_None_iff)
  then show ?thesis using None that by (simp add: group_key_def truthy_def COMMIT_TYPES_get_def)
next
  case (Some e)
  then have "type c \<in> fst ` set COMMIT_TYPES" by (metis map_of_eq_None_iff option.distinct(1))
  then show ?thesis using Some by (simp add: group_key_def truthy_def COMMIT_TYPES_get_def split: prod.splits)
qed

text \<open>The groups after sorting: one per key that occurs, each with its commits in input
  order, in ascending display order.\<close>

lemma groupByType_member:
  "(k, g) \<in> set (groupByType cs) \<longleftrightarrow>
     k \<in> group_key ` set cs \<and> g = filter (\<lambda>c. group_key c = k) cs"
proof -
  have "(k, g) \<in> set (collect_groups cs) \<longleftrightarrow> map_of (collect_groups cs) k = Some g"
    using collect_groups_distinct [of cs] by simp
  then show ?thesis by (auto simp: groupByType_def collect_groups_map_of)
qed

lemma groupByType_distinct: "distinct (map fst (groupByType cs))"
proof -
  have "mset (map fst (groupByType cs)) = mset (map fst (collect_groups cs))"
    by (simp add: groupByType_def)
  then show ?thesis using collect_groups_distinct [of cs] by (metis mset_eq_imp_distinct_iff)
qed

lemma groupByType_sorted: "sorted (map (\<lambda>e. order_or_99 (fst e)) (groupByType cs))"
  by (simp add: groupByType_def)

lemma groupByType_mset: "mset (concat (map snd (groupByType cs))) = mset cs"
proof -
  have "mset (concat (map snd (groupByType cs)))
          = sum_mset (image_mset (\<lambda>e. mset (snd e)) (mset (groupByType cs)))"
    by (simp add: mset_concat comp_def flip: sum_mset_sum_list)
  also have "\<dots> = sum_mset (image_mset (\<lambda>e. mset (snd e)) (mset (collect_groups cs)))"
    by (simp add: groupByType_def)
  also have "\<dots> = mset (concat (map snd (collect_groups cs)))"
    by (simp add: mset_concat comp_def flip: sum_mset_sum_list)
  finally show ?thesis by (simp add: collect_groups_mset)
qed

lemmas changelog_defs = COMMIT_TYPES_def Object_prototype_keys_def COMMIT_TYPES_get_def truthy_def
  order_or_99_def label_or_Other_def group_key_def collect_groups_def groupByType_def
  hasBreakingChanges_def scope_prefix_def collectBreakingChanges_def formatEntry_def
  breaking_section_def type_section_def link_line_def changelog_lines_def generateChangelog_def

lemmas date_defs = digit_char_def pad_def msPerDay_def Day_def DayFromYear_def YearFromDay_def
  InLeapYear_def MonthDateFromDay_def iso_year_def iso_date_def iso_time_def toISOString_def
  show_nat.simps Let_def

text \<open>The day does matter: a day later the header carries another date.\<close>

lemma generateChangelog_next_day:
  "generateChangelog 0 ''1.2.4'' [] None \<noteq> generateChangelog 86400000 ''1.2.4'' [] None"
  by (simp add: changelog_defs date_defs)

text \<open>
  C9 as stated fails for the calendar day of any zone but UTC.  The instants \<open>86399999\<close>
  and \<open>86400000\<close> are one millisecond apart; in the zone one hour ahead of UTC (local
  time \<open>t + 3600000\<close>) they are on the same day, and so they are in the zone eight hours
  behind UTC (local time \<open>t - 28800000\<close>); the two changelogs differ, the first dated
  1970-01-01 and the second 1970-01-02.
\<close>

theorem generateChangelog_local_day_counterexample:
  "Day (86399999 + 3600000) = Day (86400000 + 3600000) \<and>
   Day (86399999 - 28800000) = Day (86400000 - 28800000) \<and>
   generateChangelog 86399999 ''1.2.4'' [] None \<noteq> generateChangelog 86400000 ''1.2.4'' [] None"
  by (simp add: changelog_defs date_defs)

text \<open>
  C4 (amended).  When some commit is breaking, the lines after the two header lines are
  the \<open>BREAKING CHANGES\<close> heading, an empty line, one bullet per breaking commit in
  input order, written \<open>- \<close> then \<open>**scope**: \<close> (left out without a scope) then the
  description, and an empty line; the sections of the types follow.  The groups hold
  every commit, breaking or not: each group is the input filtered by its key, and
  together the groups have exactly the commits of the input.
\<close>

theorem changelog_breaking_first:
  "(\<exists>c\<in>set cs. breaking c) \<longrightarrow>
     changelog_lines now version cs lastTag =
       [''## ['' @ version @ ''] - '' @ take 10 (toISOString now), [],
        ''### BREAKING CHANGES'', []]
       @ map (\<lambda>c. ''- '' @ (case scope c of
                               None \<Rightarrow> []
                             | Some sc \<Rightarrow> if sc = [] then [] else ''**'' @ sc @ ''**: '')
                     @ description c)
           (filter breaking cs)
       @ [[]]
       @ concat (map type_section (groupByType cs))
       @ [link_line version lastTag] \<and>
     (\<forall>e\<in>set (groupByType cs). snd e = filter (\<lambda>c. group_key c = fst e) cs) \<and>
     mset (concat (map snd (groupByType cs))) = mset cs"
proof (intro impI conjI ballI)
  assume "\<exists>c\<in>set cs. breaking c"
  then have ne: "filter breaking cs \<noteq> []" by (simp add: filter_empty_conv)
  show "changelog_lines now version cs lastTag =
       [''## ['' @ version @ ''] - '' @ take 10 (toISOString now), [],
        ''### BREAKING CHANGES'', []]
       @ map (\<lambda>c. ''- '' @ (case scope c of
                               None \<Rightarrow> []
                             | Some sc \<Rightarrow> if sc = [] then [] else ''**'' @ sc @ ''**: '')
                     @ description c)
           (filter breaking cs)
       @ [[]]
       @ concat (map type_section (groupByType cs))
       @ [link_line version lastTag]"
    using ne
    by (simp add: changelog_lines_def Let_def breaking_section_def collectBreakingChanges_def
        scope_prefix_def comp_def)
next
  fix e assume "e \<in> set (groupByType cs)"
  then show "snd e = filter (\<lambda>c. group_key c = fst e) cs"
    using groupByType_member [of "fst e" "snd e" cs] by simp
next
  show "mset (concat (map snd (groupByType cs))) = mset cs" by (rule groupByType_mset)
qed


text \<open>The scenario of the specification: two features, one of them breaking, and a fix.\<close>

theorem changelog_breaking_first_witness:
  "breaking \<lparr>hash = ''cccccccccc'', type = ''feat'', scope = Some ''api'',
             description = ''drop legacy API'', body = [], breaking = True, raw = []\<rparr> \<and>
   changelog_lines 1772150400000 ''2.0.0''
     [\<lparr>hash = ''aaaaaaaaaa'', type = ''feat'', scope = None, description = ''add export'',
        body = [], breaking = False, raw = []\<rparr>,
      \<lparr>hash = ''bbbbbbbbbb'', type = ''fix'', scope = None, description = ''null pointer'',
        body = [], breaking = False, raw = []\<rparr>,
      \<lparr>hash = ''cccccccccc'', type = ''feat'', scope = Some ''api'',
        description = ''drop legacy API'', body = [], breaking = True, raw = []\<rparr>]
     (Some ''v1.2.3'')
   = [''## [2.0.0] - 2026-02-27'', [],
      ''### BREAKING CHANGES'', [],
      ''- **api**: drop legacy API'', [],
      ''### Features'', [],
      ''- add export ([aaaaaaa])'',
      ''- **api**: drop legacy API ([ccccccc])'', [],
      ''### Bug Fixes'', [],
      ''- null pointer ([bbbbbbb])'', [],
      ''[2.0.0]: https://github.com/NickCirv/release-pilot/compare/v1.2.3...v2.0.0'']"
  using changelog_breaking_first [of
      "[\<lparr>hash = ''aaaaaaaaaa'', type = ''feat'', scope = None, description = ''add export'',
        body = [], breaking = False, raw = []\<rparr>,
      \<lparr>hash = ''bbbbbbbbbb'', type = ''fix'', scope = None, description = ''null pointer'',
        body = [], breaking = False, raw = []\<rparr>,
      \<lparr>hash = ''cccccccccc'', type = ''feat'', scope = Some ''api'',
        description = ''drop legacy API'', body = [], breaking = True, raw = []\<rparr>]"
      1772150400000 "''2.0.0''" "Some ''v1.2.3''"]
  by (simp add: changelog_defs date_defs)

text \<open>
  C4 as stated fails: a breaking commit is also in the section of its type.
\<close>

theorem breaking_commit_listed_twice_counterexample:
  "breaking \<lparr>hash = ''cccccccccc'', type = ''feat'', scope = None,
             description = ''drop legacy API'', body = [], breaking = True, raw = []\<rparr> \<and>
   groupByType [\<lparr>hash = ''cccccccccc'', type = ''feat'', scope = None,
                 description = ''drop legacy API'', body = [], breaking = True, raw = []\<rparr>]
     = [(''feat'', [\<lparr>hash = ''cccccccccc'', type = ''feat'', scope = None,
                      description = ''drop legacy API'', body = [], breaking = True, raw = []\<rparr>])] \<and>
   changelog_lines 0 ''2.0.0''
     [\<lparr>hash = ''cccccccccc'', type = ''feat'', scope = None,
        description = ''drop legacy API'', body = [], breaking = True, raw = []\<rparr>] None
   = [''## [2.0.0] - 1970-01-01'', [],
      ''### BREAKING CHANGES'', [],
      ''- drop legacy API'', [],
      ''### Features'', [],
      ''- drop legacy API ([ccccccc])'', [],
      ''[2.0.0]: https://github.com/NickCirv/release-pilot/releases/tag/v2.0.0'']"
  by (simp add: changelog_defs date_defs)

text \<open>
  C7.  The subjects \<open>constructor: tidy up\<close> and \<open>wip: try things\<close> parse to the types
  \<open>constructor\<close> and \<open>wip\<close>, neither of them in the registry.  \<open>wip\<close> goes to the group
  \<open>other\<close>.  \<open>constructor\<close> does not: \<open>COMMIT_TYPES['constructor']\<close> is the inherited
  \<open>Object\<close> function, which is truthy, so the commit gets a group of its own, sorted
  with order 99 after \<open>other\<close> and printed under the heading \<open>Other\<close>.
\<close>

theorem inherited_key_not_absorbed:
  "parseCommits [''aaaaaaaaaa'' @ [CHR 0x00] @ ''constructor: tidy up'',
                 ''bbbbbbbbbb'' @ [CHR 0x00] @ ''wip: try things'']
     = [\<lparr>hash = ''aaaaaaaaaa'', type = ''constructor'', scope = None,
          description = ''tidy up'', body = [], breaking = False, raw = ''constructor: tidy up''\<rparr>,
        \<lparr>hash = ''bbbbbbbbbb'', type = ''wip'', scope = None,
          description = ''try things'', body = [], breaking = False, raw = ''wip: try things''\<rparr>] \<and>
   map_of COMMIT_TYPES ''constructor'' = None \<and>
   map_of COMMIT_TYPES ''wip'' = None \<and>
   groupByType
     [\<lparr>hash = ''aaaaaaaaaa'', type = ''constructor'', scope = None,
        description = ''tidy up'', body = [], breaking = False, raw = ''constructor: tidy up''\<rparr>,
      \<lparr>hash = ''bbbbbbbbbb'', type = ''wip'', scope = None,
        description = ''try things'', body = [], breaking = False, raw = ''wip: try things''\<rparr>]
     = [(''other'',
         [\<lparr>hash = ''bbbbbbbbbb'', type = ''wip'', scope = None,
            description = ''try things'', body = [], breaking = False, raw = ''wip: try things''\<rparr>]),
        (''constructor'',
         [\<lparr>hash = ''aaaaaaaaaa'', type = ''constructor'', scope = None,
            description = ''tidy up'', body = [], breaking = False,
            raw = ''constructor: tidy up''\<rparr>])] \<and>
   changelog_lines 0 ''1.2.4''
     [\<lparr>hash = ''aaaaaaaaaa'', type = ''constructor'', scope = None,
        description = ''tidy up'', body = [], breaking = False, raw = ''constructor: tidy up''\<rparr>,
      \<lparr>hash = ''bbbbbbbbbb'', type = ''wip'', scope = None,
        description = ''try things'', body = [], breaking = False, raw = ''wip: try things''\<rparr>]
     None
   = [''## [1.2.4] - 1970-01-01'', [],
      ''### Other Changes'', [],
      ''- try things ([bbbbbbb])'', [],
      ''### Other'', [],
      ''- tidy up ([aaaaaaa])'', [],
      ''[1.2.4]: https://github.com/NickCirv/release-pilot/releases/tag/v1.2.4'']"
  by (simp add: changelog_defs date_defs str_defs parser_defs)

end
